theory Spec2Isabelle
  imports
    Complex_Main
    "HOL-Library.Word"
    "HOL-Library.List_Lexorder"
    "HOL-Library.Char_ord"
    "HOL-Library.Multiset"
begin

unbundle bit_operations_syntax

section \<open>The ncdu user interface of rclone: data model\<close>

text \<open>
  This theory embeds the controller part of \<^verbatim>\<open>cmd/ncdu/ncdu.go\<close>: the cursor and
  viewport (\<^verbatim>\<open>move\<close>), the sort permutation (\<^verbatim>\<open>ncduSort.Less\<close>, \<^verbatim>\<open>sortCurrentDir\<close>,
  \<^verbatim>\<open>toggleSort\<close>), the selection (\<^verbatim>\<open>toggleSelectForCursor\<close>), the popup box with its
  menu and handler (\<^verbatim>\<open>deleteSingle\<close>, \<^verbatim>\<open>deleteSelected\<close>, \<^verbatim>\<open>handleBoxOption\<close>) and the
  event dispatch of \<^verbatim>\<open>Show\<close>. Drawing on the terminal is left out, except for the one
  assignment of \<^verbatim>\<open>Draw\<close> that the controller reads back (\<^verbatim>\<open>dirListHeight\<close>).

  Go's \<^verbatim>\<open>int\<close> is modelled by \<^typ>\<open>int\<close>: the values are cursor positions and list
  lengths, far from the 64-bit range. The sort flags are \<^verbatim>\<open>int8\<close> and are modelled
  by \<^typ>\<open>8 word\<close> with signed comparison. Indices that come out of \<^verbatim>\<open>range\<close> loops
  are never negative and are modelled by \<^typ>\<open>nat\<close>. A run-time panic is a value of
  type \<open>panic\<close>.
\<close>

datatype panic = IndexOutOfRange | SliceBoundsOutOfRange | NilPointer

text \<open>Indexing a Go slice with an \<^verbatim>\<open>int\<close>: out of range is a panic.\<close>

definition index :: "'a list \<Rightarrow> int \<Rightarrow> panic + 'a" where
  "index xs i = (if 0 \<le> i \<and> i < int (length xs) then Inr (xs ! nat i) else Inl IndexOutOfRange)"

text \<open>\<^verbatim>\<open>type dirPos struct { entry int; offset int }\<close>\<close>

record dirPos =
  entry :: int
  offset :: int

text \<open>
  An \<^verbatim>\<open>fs.DirEntry\<close> is an interface value; the controller calls \<^verbatim>\<open>Remote()\<close> and
  \<^verbatim>\<open>String()\<close> on it and tests whether it is an \<^verbatim>\<open>fs.Object\<close>.
\<close>

record DirEntry =
  Remote :: string
  String :: string
  isObject :: bool

text \<open>\<^verbatim>\<open>scan.Attrs\<close>, the result of \<^verbatim>\<open>AttrI\<close>.\<close>

record Attrs =
  Size :: int
  Count :: int
  CountUnknownSize :: int
  IsDir :: bool
  Readable :: bool
  EntriesHaveErrors :: bool

text \<open>
  Modelled from the spec: \<^verbatim>\<open>Attrs.AverageSize\<close> of package \<^verbatim>\<open>scan\<close>, which is not part
  of the sources at hand. The spec gives "average size is size / count"; the result
  is a \<^verbatim>\<open>float64\<close>, taken here as the real quotient. No proof below unfolds this
  definition except to evaluate it on small integers whose quotient is exact.
\<close>

definition AverageSize :: "Attrs \<Rightarrow> real" where
  "AverageSize a = real_of_int (Size a) / real_of_int (Count a)"

text \<open>
  Modelled from the spec: the directory nodes of package \<^verbatim>\<open>scan\<close> (\<^verbatim>\<open>*scan.Dir\<close>), which is
  not part of the sources at hand. The spec lists the accessors: the ordered children,
  the attributes of the child at an index, the parent, the directory node of a child,
  and the removal of the child at an index. A node is kept in a store under its address,
  since \<^verbatim>\<open>u.d\<close> and \<^verbatim>\<open>u.root\<close> are pointers into one shared tree.
\<close>

type_synonym addr = nat

record Child =
  childEntry :: DirEntry
  childAttrs :: Attrs
  childDir :: "addr option"

record Dir =
  Parent :: "addr option"
  Path :: string
  children :: "Child list"

definition Entries :: "Dir \<Rightarrow> DirEntry list" where
  "Entries dr = map childEntry (children dr)"

definition AttrI :: "Dir \<Rightarrow> nat \<Rightarrow> Attrs" where
  "AttrI dr i = childAttrs (children dr ! i)"

definition GetDir :: "Dir \<Rightarrow> int \<Rightarrow> panic + addr option" where
  "GetDir dr i = (case index (children dr) i of Inl e \<Rightarrow> Inl e | Inr c \<Rightarrow> Inr (childDir c))"

definition Remove :: "Dir \<Rightarrow> int \<Rightarrow> panic + Dir" where
  "Remove dr i =
     (if 0 \<le> i \<and> i < int (length (children dr))
      then Inr (dr\<lparr>children := take (nat i) (children dr) @ drop (Suc (nat i)) (children dr)\<rparr>)
      else Inl IndexOutOfRange)"

text \<open>
  Modelled from the spec: the storage collaborator (\<^verbatim>\<open>operations.DeleteFile\<close> and
  \<^verbatim>\<open>operations.Purge\<close>), which is not part of the sources at hand. Each call either
  fails with an error text or deletes; the backend state records, for every remote name,
  the error it answers with, and the names deleted so far in call order.
\<close>

record Fs =
  failing :: "string \<Rightarrow> string option"
  deleted :: "string list"

definition DeleteFile :: "Fs \<Rightarrow> DirEntry \<Rightarrow> Fs \<times> string option" where
  "DeleteFile fs obj =
     (case failing fs (Remote obj) of
        Some err \<Rightarrow> (fs, Some err)
      | None \<Rightarrow> (fs\<lparr>deleted := deleted fs @ [Remote obj]\<rparr>, None))"

definition Purge :: "Fs \<Rightarrow> string \<Rightarrow> Fs \<times> string option" where
  "Purge fs dir =
     (case failing fs dir of
        Some err \<Rightarrow> (fs, Some err)
      | None \<Rightarrow> (fs\<lparr>deleted := deleted fs @ [dir]\<rparr>, None))"

text \<open>
  The closures stored in \<^verbatim>\<open>boxMenuHandler\<close>, with the variables they capture:
  the two closures of \<^verbatim>\<open>deleteSingle\<close> capture the entry, its child index \<^verbatim>\<open>dirPos\<close>
  and the cursor \<^verbatim>\<open>cursorPos\<close> read when the popup was staged; the closure of
  \<^verbatim>\<open>deleteSelected\<close> captures nothing but \<^verbatim>\<open>u\<close>.
\<close>

datatype handler =
    deleteFileHandler DirEntry nat dirPos
  | purgeHandler DirEntry nat dirPos
  | deleteSelectedHandler

text \<open>
  \<^verbatim>\<open>type UI struct\<close>. The fields \<^verbatim>\<open>f\<close> and \<^verbatim>\<open>d\<close> are called \<open>ui_f\<close> and \<open>ui_d\<close>.
  \<^verbatim>\<open>dirPosMap\<close> is only ever read by key, where Go answers the zero value for a missing
  key, so it is a total function that starts as the constant zero position.
  \<^verbatim>\<open>selectedEntries\<close> is a map, whose keys are also counted and iterated over.
  The last field, \<open>heap\<close>, is not a field of the struct: it is the memory that the
  \<^verbatim>\<open>*scan.Dir\<close> pointers point into.
\<close>

record UI =
  ui_f :: Fs
  fsName :: string
  root :: "addr option"
  ui_d :: "addr option"
  path :: string
  showBox :: bool
  boxText :: "string list"
  boxMenu :: "string list"
  boxMenuButton :: int
  boxMenuHandler :: "handler option"
  entries :: "DirEntry list"
  sortPerm :: "nat list"
  invSortPerm :: "nat list"
  dirListHeight :: int
  listing :: bool
  showGraph :: bool
  showCounts :: bool
  showDirAverageSize :: bool
  humanReadable :: bool
  visualSelectMode :: bool
  sortByName :: "8 word"
  sortBySize :: "8 word"
  sortByCount :: "8 word"
  sortByAverageSize :: "8 word"
  dirPosMap :: "string \<Rightarrow> dirPos"
  selectedEntries :: "string \<rightharpoonup> dirPos"
  heap :: "addr \<Rightarrow> Dir"

text \<open>
  What the controller takes from outside and never changes: \<^verbatim>\<open>fspath.JoinRootPath\<close>
  (a string function of another package), the lines of \<^verbatim>\<open>helpText()\<close> (constant text,
  which depends on the clipboard only), and the decimal rendering of \<^verbatim>\<open>fmt.Sprintf\<close>.
\<close>

record Env =
  JoinRootPath :: "string \<Rightarrow> string \<Rightarrow> string"
  helpText :: "string list"
  Sprintf_d :: "nat \<Rightarrow> string"

section \<open>The popup box\<close>

definition moveBox :: "int \<Rightarrow> UI \<Rightarrow> UI" where
  "moveBox to u =
     (if length (boxMenu u) = 0 then u
      else
        let b = (if to > 0 then boxMenuButton u + 1 else boxMenuButton u - 1);
            n = int (length (boxMenu u))
        in u\<lparr>boxMenuButton := (if b \<ge> n then n - 1 else if b < 0 then 0 else b)\<rparr>)"

definition popupBox :: "string list \<Rightarrow> UI \<Rightarrow> UI" where
  "popupBox text u = u\<lparr>boxText := text, showBox := True\<rparr>"

definition togglePopupBox :: "string list \<Rightarrow> UI \<Rightarrow> UI" where
  "togglePopupBox text u =
     (if showBox u \<and> boxText u = text then u\<lparr>showBox := False\<rparr> else popupBox text u)"

definition displayPath :: "UI \<Rightarrow> UI" where
  "displayPath u = togglePopupBox [''Current Path'', path u] u"

section \<open>Sorting\<close>

text \<open>\<^verbatim>\<open>type ncduSort struct\<close>; \<open>ds_d\<close> holds the node that \<^verbatim>\<open>ds.d\<close> points to.\<close>

record ncduSort =
  ds_sortPerm :: "nat list"
  ds_entries :: "DirEntry list"
  ds_d :: Dir
  ds_u :: UI

definition Less :: "ncduSort \<Rightarrow> nat \<Rightarrow> nat \<Rightarrow> bool" where
  "Less ds i j =
     (let iattrs = AttrI (ds_d ds) (ds_sortPerm ds ! i);
          jattrs = AttrI (ds_d ds) (ds_sortPerm ds ! j);
          iname = Remote (ds_entries ds ! (ds_sortPerm ds ! i));
          jname = Remote (ds_entries ds ! (ds_sortPerm ds ! j));
          iAvgSize = (if Count iattrs > 0 then AverageSize iattrs else 0);
          jAvgSize = (if Count jattrs > 0 then AverageSize jattrs else 0)
      in
        if sortByName (ds_u ds) <s 0 then iname > jname
        else if 0 <s sortByName (ds_u ds) then iname < jname
        else if sortBySize (ds_u ds) <s 0 then
          (if Size iattrs \<noteq> Size jattrs then Size iattrs < Size jattrs else iname < jname)
        else if 0 <s sortBySize (ds_u ds) then
          (if Size iattrs \<noteq> Size jattrs then Size iattrs > Size jattrs else iname < jname)
        else if sortByCount (ds_u ds) <s 0 then
          (if Count iattrs \<noteq> Count jattrs then Count iattrs < Count jattrs else iname < jname)
        else if 0 <s sortByCount (ds_u ds) then
          (if Count iattrs \<noteq> Count jattrs then Count iattrs > Count jattrs else iname < jname)
        else if sortByAverageSize (ds_u ds) <s 0 then
          (if iAvgSize \<noteq> jAvgSize then iAvgSize < jAvgSize else Size iattrs < Size jattrs)
        else if 0 <s sortByAverageSize (ds_u ds) then
          (if iAvgSize \<noteq> jAvgSize then iAvgSize > jAvgSize else Size iattrs > Size jattrs)
        else iname < jname)"

definition Swap :: "ncduSort \<Rightarrow> nat \<Rightarrow> nat \<Rightarrow> ncduSort" where
  "Swap ds i j =
     ds\<lparr>ds_sortPerm := (ds_sortPerm ds)[i := ds_sortPerm ds ! j, j := ds_sortPerm ds ! i]\<rparr>"

definition Len :: "ncduSort \<Rightarrow> nat" where
  "Len ds = length (ds_sortPerm ds)"

text \<open>
  \<^verbatim>\<open>sort.Sort\<close> belongs to Go's standard library. It reaches the data through \<^verbatim>\<open>Len\<close>,
  \<^verbatim>\<open>Less\<close> and \<^verbatim>\<open>Swap\<close> only. It is modelled by the insertion sort that the library
  runs on short inputs: for \<^verbatim>\<open>i\<close> from 1 up, the element at \<^verbatim>\<open>i\<close> sinks while it is
  \<^verbatim>\<open>Less\<close> than its left neighbour.
\<close>

fun sink :: "ncduSort \<Rightarrow> nat \<Rightarrow> ncduSort" where
  "sink ds 0 = ds"
| "sink ds (Suc j) = (if Less ds (Suc j) j then sink (Swap ds (Suc j) j) j else ds)"

definition sort_Sort :: "ncduSort \<Rightarrow> ncduSort" where
  "sort_Sort ds = foldl sink ds [1..<Len ds]"

text \<open>The loop \<^verbatim>\<open>for i, j := range u.sortPerm { u.invSortPerm[j] = i }\<close>, from rank \<open>i\<close> on.\<close>

fun invert :: "nat \<Rightarrow> nat list \<Rightarrow> nat list \<Rightarrow> nat list" where
  "invert i [] iv = iv"
| "invert i (j # js) iv = invert (Suc i) js (iv[j := i])"

text \<open>
  \<^verbatim>\<open>sortCurrentDir\<close>. \<^verbatim>\<open>Less\<close> dereferences \<^verbatim>\<open>ds.d\<close> and indexes its children; the sort
  calls it as soon as there are two entries, on every index, so these accesses are
  checked before the sort runs. The entries of \<^verbatim>\<open>invSortPerm\<close> written by the last loop
  are below its length, as the permutation holds indices below \<^verbatim>\<open>len(u.entries)\<close>.
\<close>

definition sortCurrentDir :: "UI \<Rightarrow> panic + UI" where
  "sortCurrentDir u =
     (let n = length (entries u);
          sortPerm0 = [0..<n]
      in
        case (if n < 2 then Inr sortPerm0
              else case ui_d u of
                     None \<Rightarrow> Inl NilPointer
                   | Some a \<Rightarrow>
                       if length (children (heap u a)) < n then Inl IndexOutOfRange
                       else Inr (ds_sortPerm (sort_Sort
                              \<lparr>ds_sortPerm = sortPerm0, ds_entries = entries u,
                               ds_d = heap u a, ds_u = u\<rparr>))) of
          Inl e \<Rightarrow> Inl e
        | Inr sp \<Rightarrow>
            Inr (u\<lparr>sortPerm := sp,
                   invSortPerm := invert 0 sp
                     (if length (invSortPerm u) < length sp then replicate (length sp) 0
                      else invSortPerm u)\<rparr>))"

text \<open>\<^verbatim>\<open>toggleSort(sortType *int8)\<close>: the pointer names one of the four flags.\<close>

datatype sortKey = ByName | BySize | ByCount | ByAverageSize

fun sortFlag :: "sortKey \<Rightarrow> UI \<Rightarrow> 8 word" where
  "sortFlag ByName u = sortByName u"
| "sortFlag BySize u = sortBySize u"
| "sortFlag ByCount u = sortByCount u"
| "sortFlag ByAverageSize u = sortByAverageSize u"

fun setSortFlag :: "sortKey \<Rightarrow> 8 word \<Rightarrow> UI \<Rightarrow> UI" where
  "setSortFlag ByName v u = u\<lparr>sortByName := v\<rparr>"
| "setSortFlag BySize v u = u\<lparr>sortBySize := v\<rparr>"
| "setSortFlag ByCount v u = u\<lparr>sortByCount := v\<rparr>"
| "setSortFlag ByAverageSize v u = u\<lparr>sortByAverageSize := v\<rparr>"

definition toggleSort :: "sortKey \<Rightarrow> UI \<Rightarrow> panic + UI" where
  "toggleSort sortType u =
     (let old = sortFlag sortType u;
          u1 = u\<lparr>sortBySize := 0, sortByCount := 0, sortByName := 0, sortByAverageSize := 0\<rparr>;
          u2 = (if old = 0 then setSortFlag sortType 1 u1 else setSortFlag sortType (- old) u1)
      in sortCurrentDir u2)"

section \<open>Selection and cursor movement\<close>

definition toggleSelectForCursor :: "UI \<Rightarrow> panic + UI" where
  "toggleSelectForCursor u =
     (let cursorPos = dirPosMap u (path u) in
      case index (sortPerm u) (entry cursorPos) of
        Inl e \<Rightarrow> Inl e
      | Inr dirPos \<Rightarrow>
          (case index (entries u) (int dirPos) of
             Inl e \<Rightarrow> Inl e
           | Inr dirEntry \<Rightarrow>
               if selectedEntries u (String dirEntry) \<noteq> None
               then Inr (u\<lparr>selectedEntries := (selectedEntries u)(String dirEntry := None)\<rparr>)
               else Inr (u\<lparr>selectedEntries := (selectedEntries u)(String dirEntry \<mapsto> cursorPos)\<rparr>)))"

text \<open>
  \<^verbatim>\<open>move\<close>. The position is fetched into the local \<^verbatim>\<open>dirPos\<close>, changed there, and
  written back to \<^verbatim>\<open>dirPosMap\<close> in the last statement, after the selection toggle.
\<close>

definition move :: "int \<Rightarrow> UI \<Rightarrow> panic + UI" where
  "move dl u =
     (if ui_d u = None then Inr u
      else
        let absD = (if dl < 0 then - dl else dl);
            n = int (length (entries u));
            dp = dirPosMap u (path u);
            e1 = entry dp + dl;
            e2 = (if e1 < 0 then 0 else if e1 \<ge> n then n - 1 else e1);
            p = e2 - offset dp;
            o1 = (if p < 0 then offset dp - absD
                  else if p \<ge> dirListHeight u then offset dp + absD
                  else offset dp);
            o2 = (if n = 0 \<or> o1 < 0 then 0 else if o1 \<ge> n then n - 1 else o1)
        in
          case (if visualSelectMode u then toggleSelectForCursor u else Inr u) of
            Inl e \<Rightarrow> Inl e
          | Inr u' \<Rightarrow>
              Inr (u'\<lparr>dirPosMap := (dirPosMap u')(path u' := \<lparr>entry = e2, offset = o2\<rparr>)\<rparr>))"

section \<open>Changing the directory and removing entries\<close>

definition setCurrentDir :: "Env \<Rightarrow> addr \<Rightarrow> UI \<Rightarrow> panic + UI" where
  "setCurrentDir env a u =
     sortCurrentDir
       (u\<lparr>ui_d := Some a,
          entries := Entries (heap u a),
          path := JoinRootPath env (fsName u) (Path (heap u a)),
          selectedEntries := Map.empty,
          visualSelectMode := False\<rparr>)"

definition removeEntry :: "Env \<Rightarrow> int \<Rightarrow> UI \<Rightarrow> panic + UI" where
  "removeEntry env pos u =
     (case ui_d u of
        None \<Rightarrow> Inl NilPointer
      | Some a \<Rightarrow>
          (case Remove (heap u a) pos of
             Inl e \<Rightarrow> Inl e
           | Inr dr \<Rightarrow> setCurrentDir env a (u\<lparr>heap := (heap u)(a := dr)\<rparr>)))"

definition enter :: "Env \<Rightarrow> UI \<Rightarrow> panic + UI" where
  "enter env u =
     (case ui_d u of
        None \<Rightarrow> Inr u
      | Some a \<Rightarrow>
          if length (entries u) = 0 then Inr u
          else
            (case index (sortPerm u) (entry (dirPosMap u (path u))) of
               Inl e \<Rightarrow> Inl e
             | Inr i \<Rightarrow>
                 (case GetDir (heap u a) (int i) of
                    Inl e \<Rightarrow> Inl e
                  | Inr None \<Rightarrow> Inr u
                  | Inr (Some d') \<Rightarrow> setCurrentDir env d' u)))"

definition up :: "Env \<Rightarrow> UI \<Rightarrow> panic + UI" where
  "up env u =
     (case ui_d u of
        None \<Rightarrow> Inr u
      | Some a \<Rightarrow>
          (case Parent (heap u a) of
             None \<Rightarrow> Inr u
           | Some parent \<Rightarrow> setCurrentDir env parent u))"

section \<open>Deleting\<close>

text \<open>
  The two closures of \<^verbatim>\<open>deleteSingle\<close>: \<open>opt\<close> is the menu button, \<open>cursorPos\<close> and
  \<open>dirPos\<close> are the captured values. The result is the state with the returned
  message and error.
\<close>

definition deleteFileRun ::
  "Env \<Rightarrow> DirEntry \<Rightarrow> nat \<Rightarrow> dirPos \<Rightarrow> int \<Rightarrow> UI \<Rightarrow> panic + (UI \<times> string \<times> string option)" where
  "deleteFileRun env obj dirPos cursorPos opt u =
     (if opt \<noteq> 1 then Inr (u, ''Aborted!'', None)
      else
        case DeleteFile (ui_f u) obj of
          (f', Some err) \<Rightarrow> Inr (u\<lparr>ui_f := f'\<rparr>, [], Some err)
        | (f', None) \<Rightarrow>
            (case removeEntry env (int dirPos) (u\<lparr>ui_f := f'\<rparr>) of
               Inl e \<Rightarrow> Inl e
             | Inr u1 \<Rightarrow>
                 (case (if entry cursorPos \<ge> int (length (entries u1)) then move (- 1) u1
                        else Inr u1) of
                    Inl e \<Rightarrow> Inl e
                  | Inr u2 \<Rightarrow> Inr (u2, ''Successfully deleted file!'', None))))"

definition purgeRun ::
  "Env \<Rightarrow> DirEntry \<Rightarrow> nat \<Rightarrow> dirPos \<Rightarrow> int \<Rightarrow> UI \<Rightarrow> panic + (UI \<times> string \<times> string option)" where
  "purgeRun env dirEntry dirPos cursorPos opt u =
     (if opt \<noteq> 1 then Inr (u, ''Aborted!'', None)
      else
        case Purge (ui_f u) (String dirEntry) of
          (f', Some err) \<Rightarrow> Inr (u\<lparr>ui_f := f'\<rparr>, [], Some err)
        | (f', None) \<Rightarrow>
            (case removeEntry env (int dirPos) (u\<lparr>ui_f := f'\<rparr>) of
               Inl e \<Rightarrow> Inl e
             | Inr u1 \<Rightarrow>
                 (case (if entry cursorPos \<ge> int (length (entries u1)) then move (- 1) u1
                        else Inr u1) of
                    Inl e \<Rightarrow> Inl e
                  | Inr u2 \<Rightarrow> Inr (u2, ''Successfully purged folder!'', None))))"

text \<open>
  The closure of \<^verbatim>\<open>deleteSelected\<close>. Go does not fix the order in which \<^verbatim>\<open>range\<close>
  visits a map: the pairs are given in the order of the visit, \<open>kvs\<close>, which is a
  visit of the map \<open>m\<close> when \<open>rangeOrder m kvs\<close> holds. The first loop deletes on the
  backend and collects the child indices in \<open>ps\<close> (\<^verbatim>\<open>positionsToDelete\<close>); it stops at
  the first error.
\<close>

definition rangeOrder :: "(string \<rightharpoonup> dirPos) \<Rightarrow> (string \<times> dirPos) list \<Rightarrow> bool" where
  "rangeOrder m kvs \<longleftrightarrow> distinct (map fst kvs) \<and> map_of kvs = m"

fun deleteLoop ::
  "(string \<times> dirPos) list \<Rightarrow> UI \<Rightarrow> nat list \<Rightarrow> panic + (UI \<times> nat list \<times> string option)" where
  "deleteLoop [] u ps = Inr (u, ps, None)"
| "deleteLoop ((key, cursorPos) # kvs) u ps =
     (case index (sortPerm u) (entry cursorPos) of
        Inl e \<Rightarrow> Inl e
      | Inr dirPos \<Rightarrow>
          (case index (entries u) (int dirPos) of
             Inl e \<Rightarrow> Inl e
           | Inr dirEntry \<Rightarrow>
               (case (if isObject dirEntry then DeleteFile (ui_f u) dirEntry
                      else Purge (ui_f u) (String dirEntry)) of
                  (f', Some err) \<Rightarrow> Inr (u\<lparr>ui_f := f'\<rparr>, ps, Some err)
                | (f', None) \<Rightarrow>
                    deleteLoop kvs
                      (u\<lparr>ui_f := f', selectedEntries := (selectedEntries u)(key := None)\<rparr>)
                      (ps @ [dirPos]))))"

text \<open>\<^verbatim>\<open>sort.Slice\<close> with \<^verbatim>\<open>>\<close> on integers: the descending arrangement.\<close>

definition sortDescending :: "nat list \<Rightarrow> nat list" where
  "sortDescending ps = rev (sort ps)"

fun removeEntries :: "Env \<Rightarrow> nat list \<Rightarrow> UI \<Rightarrow> panic + UI" where
  "removeEntries env [] u = Inr u"
| "removeEntries env (dirPos # ps) u =
     (case removeEntry env (int dirPos) u of
        Inl e \<Rightarrow> Inl e
      | Inr u' \<Rightarrow> removeEntries env ps u')"

definition deleteSelectedRun ::
  "Env \<Rightarrow> (string \<times> dirPos) list \<Rightarrow> int \<Rightarrow> UI \<Rightarrow> panic + (UI \<times> string \<times> string option)" where
  "deleteSelectedRun env kvs opt u =
     (if opt \<noteq> 1 then Inr (u, ''Aborted!'', None)
      else
        case deleteLoop kvs u [] of
          Inl e \<Rightarrow> Inl e
        | Inr (u1, ps, Some err) \<Rightarrow> Inr (u1, [], Some err)
        | Inr (u1, positionsToDelete, None) \<Rightarrow>
            (case removeEntries env (sortDescending positionsToDelete) u1 of
               Inl e \<Rightarrow> Inl e
             | Inr u2 \<Rightarrow>
                 (case (if entry (dirPosMap u2 (path u2)) \<ge> int (length (entries u2))
                        then move (- 1) u2 else Inr u2) of
                    Inl e \<Rightarrow> Inl e
                  | Inr u3 \<Rightarrow> Inr (u3, ''Successfully deleted all items!'', None))))"

fun runHandler ::
  "Env \<Rightarrow> (string \<times> dirPos) list \<Rightarrow> handler \<Rightarrow> int \<Rightarrow> UI \<Rightarrow>
     panic + (UI \<times> string \<times> string option)" where
  "runHandler env kvs (deleteFileHandler obj dirPos cursorPos) opt u =
     deleteFileRun env obj dirPos cursorPos opt u"
| "runHandler env kvs (purgeHandler dirEntry dirPos cursorPos) opt u =
     purgeRun env dirEntry dirPos cursorPos opt u"
| "runHandler env kvs deleteSelectedHandler opt u = deleteSelectedRun env kvs opt u"

definition deleteSingle :: "Env \<Rightarrow> UI \<Rightarrow> panic + UI" where
  "deleteSingle env u =
     (let cursorPos = dirPosMap u (path u) in
      case index (sortPerm u) (entry cursorPos) of
        Inl e \<Rightarrow> Inl e
      | Inr dirPos \<Rightarrow>
          (case index (entries u) (int dirPos) of
             Inl e \<Rightarrow> Inl e
           | Inr dirEntry \<Rightarrow>
               let u1 = u\<lparr>boxMenu := [''cancel'', ''confirm'']\<rparr> in
               if isObject dirEntry then
                 Inr (popupBox
                        [''Delete this file?'', JoinRootPath env (fsName u) (String dirEntry)]
                        (u1\<lparr>boxMenuHandler := Some (deleteFileHandler dirEntry dirPos cursorPos)\<rparr>))
               else
                 Inr (popupBox
                        [''Purge this directory?'', ''ALL files in it will be deleted'',
                         JoinRootPath env (fsName u) (String dirEntry)]
                        (u1\<lparr>boxMenuHandler := Some (purgeHandler dirEntry dirPos cursorPos)\<rparr>))))"

definition deleteSelected :: "Env \<Rightarrow> UI \<Rightarrow> UI" where
  "deleteSelected env u =
     popupBox
       [''Delete selected items?'',
        ''ALL '' @ Sprintf_d env (card (dom (selectedEntries u))) @ '' items will be deleted'']
       (u\<lparr>boxMenu := [''cancel'', ''confirm''], boxMenuHandler := Some deleteSelectedHandler\<rparr>)"

definition delete :: "Env \<Rightarrow> UI \<Rightarrow> panic + UI" where
  "delete env u =
     (if ui_d u = None \<or> length (entries u) = 0 then Inr u
      else if selectedEntries u \<noteq> Map.empty then Inr (deleteSelected env u)
      else deleteSingle env u)"

definition handleBoxOption :: "Env \<Rightarrow> (string \<times> dirPos) list \<Rightarrow> UI \<Rightarrow> panic + UI" where
  "handleBoxOption env kvs u =
     (case boxMenuHandler u of
        None \<Rightarrow> Inl NilPointer
      | Some h \<Rightarrow>
          (case runHandler env kvs h (boxMenuButton u) u of
             Inl e \<Rightarrow> Inl e
           | Inr (u1, msg, err) \<Rightarrow>
               let u2 = u1\<lparr>boxMenuButton := 0, boxMenu := [], boxMenuHandler := None\<rparr> in
               (case err of
                  Some e \<Rightarrow> Inr (popupBox [''error:'', e] u2)
                | None \<Rightarrow> Inr (popupBox [''Finished:'', msg] u2))))"

section \<open>The event loop\<close>

definition NewUI :: "Fs \<Rightarrow> string \<Rightarrow> (addr \<Rightarrow> Dir) \<Rightarrow> UI" where
  "NewUI f name h =
     \<lparr>ui_f = f, fsName = name, root = None, ui_d = None, path = ''Waiting for root...'',
      showBox = False, boxText = [], boxMenu = [], boxMenuButton = 0, boxMenuHandler = None,
      entries = [], sortPerm = [], invSortPerm = [], dirListHeight = 20, listing = False,
      showGraph = True, showCounts = False, showDirAverageSize = False, humanReadable = True,
      visualSelectMode = False, sortByName = 0, sortBySize = 1, sortByCount = 0,
      sortByAverageSize = 0, dirPosMap = (\<lambda>_. \<lparr>entry = 0, offset = 0\<rparr>),
      selectedEntries = Map.empty, heap = h\<rparr>"

text \<open>
  Of \<^verbatim>\<open>Draw\<close>, with \<open>h\<close> the height of the terminal: the assignment to
  \<^verbatim>\<open>dirListHeight\<close>, and the slice expression \<^verbatim>\<open>u.sortPerm[dirPos.offset:]\<close>, which
  panics when the offset is not within the permutation.
\<close>

definition Draw :: "int \<Rightarrow> UI \<Rightarrow> panic + UI" where
  "Draw h u =
     (let u1 = u\<lparr>dirListHeight := h - 3\<rparr>;
          off = offset (dirPosMap u (path u))
      in if ui_d u \<noteq> None \<and> (off < 0 \<or> off > int (length (sortPerm u)))
         then Inl SliceBoundsOutOfRange else Inr u1)"

text \<open>
  The keys that \<^verbatim>\<open>Show\<close> distinguishes, named after its \<^verbatim>\<open>case\<close> labels
  (\<open>KeyEsc\<close> stands for Esc, Ctrl-C and \<^verbatim>\<open>q\<close>; \<open>KeyPgdn\<close> for PgDn, \<^verbatim>\<open>-\<close>, \<^verbatim>\<open>_\<close>, and so
  on), and the four sources of the \<^verbatim>\<open>select\<close> statement.
\<close>

datatype key =
    KeyEsc | KeyArrowDown | KeyArrowUp | KeyPgdn | KeyPgup | KeyArrowLeft | KeyEnter
  | KeyArrowRight | Key_c | Key_g | Key_a | Key_n | Key_s | Key_v | Key_V | Key_C | Key_A
  | Key_y | Key_Y | Key_d | Key_u | Key_D | KeyHelp | KeyCtrlL | KeyOther

datatype event = RootChan addr | ErrChan "string option" | Updated | EventKey key

datatype stop = Panic panic | Quit | ListingError string

definition run :: "panic + UI \<Rightarrow> stop + UI" where
  "run r = (case r of Inl e \<Rightarrow> Inl (Panic e) | Inr u \<Rightarrow> Inr u)"

fun handleKey :: "Env \<Rightarrow> (string \<times> dirPos) list \<Rightarrow> key \<Rightarrow> UI \<Rightarrow> stop + UI" where
  "handleKey env kvs KeyEsc u = (if showBox u then Inr (u\<lparr>showBox := False\<rparr>) else Inl Quit)"
| "handleKey env kvs KeyArrowDown u = run (move 1 u)"
| "handleKey env kvs KeyArrowUp u = run (move (- 1) u)"
| "handleKey env kvs KeyPgdn u = run (move (dirListHeight u) u)"
| "handleKey env kvs KeyPgup u = run (move (- dirListHeight u) u)"
| "handleKey env kvs KeyArrowLeft u =
     (if showBox u then Inr (moveBox (- 1) u) else run (up env u))"
| "handleKey env kvs KeyEnter u =
     (if length (boxMenu u) > 0 then run (handleBoxOption env kvs u) else run (enter env u))"
| "handleKey env kvs KeyArrowRight u =
     (if showBox u then Inr (moveBox 1 u) else run (enter env u))"
| "handleKey env kvs Key_c u = Inr (u\<lparr>showCounts := \<not> showCounts u\<rparr>)"
| "handleKey env kvs Key_g u = Inr (u\<lparr>showGraph := \<not> showGraph u\<rparr>)"
| "handleKey env kvs Key_a u = Inr (u\<lparr>showDirAverageSize := \<not> showDirAverageSize u\<rparr>)"
| "handleKey env kvs Key_n u = run (toggleSort ByName u)"
| "handleKey env kvs Key_s u = run (toggleSort BySize u)"
| "handleKey env kvs Key_v u = run (toggleSelectForCursor u)"
| "handleKey env kvs Key_V u = Inr (u\<lparr>visualSelectMode := \<not> visualSelectMode u\<rparr>)"
| "handleKey env kvs Key_C u = run (toggleSort ByCount u)"
| "handleKey env kvs Key_A u = run (toggleSort ByAverageSize u)"
| "handleKey env kvs Key_y u = Inr u"
| "handleKey env kvs Key_Y u = Inr (displayPath u)"
| "handleKey env kvs Key_d u = run (delete env u)"
| "handleKey env kvs Key_u u = Inr (u\<lparr>humanReadable := \<not> humanReadable u\<rparr>)"
| "handleKey env kvs Key_D u = Inr (deleteSelected env u)"
| "handleKey env kvs KeyHelp u = Inr (togglePopupBox (helpText env) u)"
| "handleKey env kvs KeyCtrlL u = Inr u"
| "handleKey env kvs KeyOther u = Inr u"

fun handleEvent :: "Env \<Rightarrow> (string \<times> dirPos) list \<Rightarrow> event \<Rightarrow> UI \<Rightarrow> stop + UI" where
  "handleEvent env kvs (RootChan r) u = run (setCurrentDir env r (u\<lparr>root := Some r\<rparr>))"
| "handleEvent env kvs (ErrChan (Some err)) u = Inl (ListingError err)"
| "handleEvent env kvs (ErrChan None) u = Inr (u\<lparr>listing := False\<rparr>)"
| "handleEvent env kvs Updated u = run (sortCurrentDir u)"
| "handleEvent env kvs (EventKey k) u = handleKey env kvs k u"

text \<open>
  One turn of the main loop of \<^verbatim>\<open>Show\<close>: draw on a terminal of height \<open>h\<close>, then
  take one event. \<open>steps\<close> runs a list of turns and stops at the first turn that ends
  the loop.
\<close>

definition step :: "Env \<Rightarrow> int \<Rightarrow> (string \<times> dirPos) list \<Rightarrow> event \<Rightarrow> UI \<Rightarrow> stop + UI" where
  "step env h kvs ev u =
     (case Draw h u of Inl e \<Rightarrow> Inl (Panic e) | Inr u1 \<Rightarrow> handleEvent env kvs ev u1)"

fun steps :: "Env \<Rightarrow> (int \<times> (string \<times> dirPos) list \<times> event) list \<Rightarrow> UI \<Rightarrow> stop + UI" where
  "steps env [] u = Inr u"
| "steps env ((h, kvs, ev) # rest) u =
     (case step env h kvs ev u of Inl s \<Rightarrow> Inl s | Inr u' \<Rightarrow> steps env rest u')"

text \<open>The state in which \<^verbatim>\<open>Show\<close> enters its loop.\<close>

definition Show_init :: "Fs \<Rightarrow> string \<Rightarrow> (addr \<Rightarrow> Dir) \<Rightarrow> UI" where
  "Show_init f name h = (NewUI f name h)\<lparr>listing := True\<rparr>"

section \<open>Properties of states and runs\<close>

text \<open>
  The current directory and the entry list agree: \<^verbatim>\<open>u.entries\<close> is the list that
  \<^verbatim>\<open>setCurrentDir\<close> copied from the node \<^verbatim>\<open>u.d\<close>, and there are no entries before the
  root has arrived.
\<close>

definition consistent :: "UI \<Rightarrow> bool" where
  "consistent u \<longleftrightarrow>
     (case ui_d u of None \<Rightarrow> entries u = [] | Some a \<Rightarrow> entries u = Entries (heap u a))"

text \<open>One sort flag is \<open>1\<close> or \<open>-1\<close> and the three others are \<open>0\<close>.\<close>

definition oneSortKey :: "UI \<Rightarrow> bool" where
  "oneSortKey u \<longleftrightarrow>
     (\<exists>k. (sortFlag k u = 1 \<or> sortFlag k u = - 1) \<and> (\<forall>k'. k' \<noteq> k \<longrightarrow> sortFlag k' u = 0))"

text \<open>
  The states that the loop of \<^verbatim>\<open>Show\<close> can be in: it starts in \<open>Show_init\<close>, takes
  turns (where the order \<open>kvs\<close> given for a \<^verbatim>\<open>range\<close> over the selection is a visit of
  the selection), and between two turns the scanner may change the tree in any way
  that leaves the entries of the displayed directory as they are.
\<close>

inductive reachable :: "Env \<Rightarrow> UI \<Rightarrow> bool" for env :: Env where
  start: "reachable env (Show_init f name h)"
| turn: "reachable env u \<Longrightarrow> rangeOrder (selectedEntries u) kvs \<Longrightarrow> step env h kvs ev u = Inr u'
         \<Longrightarrow> reachable env u'"
| scan: "reachable env u \<Longrightarrow> \<forall>a. ui_d u = Some a \<longrightarrow> Entries (h' a) = Entries (heap u a)
         \<Longrightarrow> reachable env (u\<lparr>heap := h'\<rparr>)"

text \<open>Relations between a state and a later one, used to carry facts along a run.\<close>

definition sameFlags :: "UI \<Rightarrow> UI \<Rightarrow> bool" where
  "sameFlags u u' \<longleftrightarrow> sortByName u' = sortByName u \<and> sortBySize u' = sortBySize u
     \<and> sortByCount u' = sortByCount u \<and> sortByAverageSize u' = sortByAverageSize u"

definition keeps :: "UI \<Rightarrow> UI \<Rightarrow> bool" where
  "keeps u u' \<longleftrightarrow> sortByName u' = sortByName u \<and> sortBySize u' = sortBySize u \<and> sortByCount u' = sortByCount u
     \<and> sortByAverageSize u' = sortByAverageSize u \<and> ui_d u' = ui_d u \<and> entries u' = entries u \<and> heap u' = heap u"

definition pres :: "UI \<Rightarrow> UI \<Rightarrow> bool" where
  "pres u u' \<longleftrightarrow> sameFlags u u' \<and> (consistent u \<longrightarrow> consistent u')"

definition stateInv :: "UI \<Rightarrow> bool" where
  "stateInv u \<longleftrightarrow> consistent u \<and> oneSortKey u"

text \<open>The position that \<^verbatim>\<open>u.dirPosMap[u.path]\<close> reads.\<close>

definition cursor :: "UI \<Rightarrow> dirPos" where
  "cursor u = dirPosMap u (path u)"

section \<open>Example directories\<close>

text \<open>
  Small concrete inputs, on which the definitions are run: files with a name and a
  size, a tree whose root holds the given children, a backend on which every deletion
  succeeds, and the session that \<^verbatim>\<open>Show\<close> starts on such a tree.
\<close>

definition ex_file :: "string \<Rightarrow> int \<Rightarrow> Child" where
  "ex_file name sz =
     \<lparr>childEntry = \<lparr>Remote = name, String = name, isObject = True\<rparr>,
      childAttrs = \<lparr>Size = sz, Count = 1, CountUnknownSize = 0, IsDir = False,
                    Readable = True, EntriesHaveErrors = False\<rparr>,
      childDir = None\<rparr>"

definition ex_dir :: "string \<Rightarrow> int \<Rightarrow> int \<Rightarrow> Child" where
  "ex_dir name sz cnt =
     \<lparr>childEntry = \<lparr>Remote = name, String = name, isObject = False\<rparr>,
      childAttrs = \<lparr>Size = sz, Count = cnt, CountUnknownSize = 0, IsDir = True,
                    Readable = True, EntriesHaveErrors = False\<rparr>,
      childDir = None\<rparr>"

definition ex_heap :: "Child list \<Rightarrow> addr \<Rightarrow> Dir" where
  "ex_heap cs = (\<lambda>a. \<lparr>Parent = None, Path = [], children = cs\<rparr>)"

definition ex_fs :: Fs where
  "ex_fs = \<lparr>failing = (\<lambda>name. None), deleted = []\<rparr>"

definition ex_env :: Env where
  "ex_env = \<lparr>JoinRootPath = (\<lambda>remote filePath. remote @ filePath), helpText = [],
            Sprintf_d = (\<lambda>n. replicate n (CHR ''I''))\<rparr>"

definition ex_start :: "Child list \<Rightarrow> UI" where
  "ex_start cs = Show_init ex_fs ''remote:'' (ex_heap cs)"

text \<open>A run of key presses on a terminal of 23 lines, after the root has arrived.\<close>

definition ex_keys :: "key list \<Rightarrow> (int \<times> (string \<times> dirPos) list \<times> event) list" where
  "ex_keys ks = (23, [], RootChan 0) # map (\<lambda>k. (23, [], EventKey k)) ks"

text \<open>The state after such a run, when the run has not stopped.\<close>

definition ex_after :: "key list \<Rightarrow> Child list \<Rightarrow> UI" where
  "ex_after ks cs = projr (steps ex_env (ex_keys ks) (ex_start cs))"

text \<open>
  The data that \<^verbatim>\<open>sortCurrentDir\<close> hands to the sort for such a tree, in a state where
  the key \<^verbatim>\<open>A\<close> has been pressed once (average size, flag 1) or not (size, flag 1).
\<close>

definition ex_sort :: "Child list \<Rightarrow> UI \<Rightarrow> ncduSort" where
  "ex_sort cs u =
     \<lparr>ds_sortPerm = [0..<length cs], ds_entries = map childEntry cs, ds_d = ex_heap cs 0, ds_u = u\<rparr>"

definition ex_bySize :: "Child list \<Rightarrow> ncduSort" where
  "ex_bySize cs = ex_sort cs (ex_start cs)"

definition ex_byAverageSize :: "Child list \<Rightarrow> ncduSort" where
  "ex_byAverageSize cs = ex_sort cs ((ex_start cs)\<lparr>sortBySize := 0, sortByAverageSize := 1\<rparr>)"

text \<open>What a run shows of its last state, when it has not stopped.\<close>

definition observed :: "(UI \<Rightarrow> 'a) \<Rightarrow> stop + UI \<Rightarrow> stop + 'a" where
  "observed obs r = map_sum id obs r"

text \<open>
  The entry under the stored cursor, as \<^verbatim>\<open>toggleSelectForCursor\<close> and \<^verbatim>\<open>deleteSingle\<close>
  compute it: \<^verbatim>\<open>u.entries[u.sortPerm[cursorPos.entry]]\<close>; and a map with one key toggled.
\<close>

definition cursorEntry :: "UI \<Rightarrow> panic + DirEntry" where
  "cursorEntry u =
     (case index (sortPerm u) (entry (cursor u)) of
        Inl e \<Rightarrow> Inl e
      | Inr dirPos \<Rightarrow> index (entries u) (int dirPos))"

definition cursorName :: "UI \<Rightarrow> panic + string" where
  "cursorName u = map_sum id Remote (cursorEntry u)"

definition toggled :: "(string \<rightharpoonup> dirPos) \<Rightarrow> string \<Rightarrow> dirPos \<Rightarrow> (string \<rightharpoonup> dirPos)" where
  "toggled m k pos = (if m k \<noteq> None then m(k := None) else m(k \<mapsto> pos))"

text \<open>
  The position that \<^verbatim>\<open>move\<close> writes back to \<^verbatim>\<open>u.dirPosMap[u.path]\<close>: the local
  variable \<^verbatim>\<open>dirPos\<close> of \<^verbatim>\<open>move\<close> after the three range checks.
\<close>

definition moved :: "int \<Rightarrow> UI \<Rightarrow> dirPos" where
  "moved dl u =
     (let absD = (if dl < 0 then - dl else dl);
          n = int (length (entries u));
          dp = dirPosMap u (path u);
          e1 = entry dp + dl;
          e2 = (if e1 < 0 then 0 else if e1 \<ge> n then n - 1 else e1);
          p = e2 - offset dp;
          o1 = (if p < 0 then offset dp - absD
                else if p \<ge> dirListHeight u then offset dp + absD
                else offset dp);
          o2 = (if n = 0 \<or> o1 < 0 then 0 else if o1 \<ge> n then n - 1 else o1)
      in \<lparr>entry = e2, offset = o2\<rparr>)"

text \<open>
  The viewport invariant of the displayed directory: the cursor is on an entry, the
  scroll offset is not after the cursor, and the cursor is within the visible rows;
  both are 0 when there are no entries.
\<close>

definition viewportOk :: "UI \<Rightarrow> bool" where
  "viewportOk u =
     (let c = cursor u; n = int (length (entries u)) in
      if n = 0 then entry c = 0 \<and> offset c = 0
      else 0 \<le> entry c \<and> entry c < n \<and> 0 \<le> offset c \<and> offset c \<le> entry c \<and>
           entry c - offset c < dirListHeight u)"

text \<open>
  The local variables of \<^verbatim>\<open>Less\<close>: the name, the attributes and the average size of
  the entry at a position; the sort key that the \<^verbatim>\<open>switch\<close> of \<^verbatim>\<open>Less\<close> acts on, which
  is the first flag that is not 0 in the order name, size, count, average size; and
  whether the attribute of that key is the same for two positions.
\<close>

definition iname :: "ncduSort \<Rightarrow> nat \<Rightarrow> string" where
  "iname ds i = Remote (ds_entries ds ! (ds_sortPerm ds ! i))"

definition iattrs :: "ncduSort \<Rightarrow> nat \<Rightarrow> Attrs" where
  "iattrs ds i = AttrI (ds_d ds) (ds_sortPerm ds ! i)"

definition iAvgSize :: "ncduSort \<Rightarrow> nat \<Rightarrow> real" where
  "iAvgSize ds i = (if Count (iattrs ds i) > 0 then AverageSize (iattrs ds i) else 0)"

definition activeKey :: "UI \<Rightarrow> sortKey option" where
  "activeKey u =
     (if sortByName u \<noteq> 0 then Some ByName
      else if sortBySize u \<noteq> 0 then Some BySize
      else if sortByCount u \<noteq> 0 then Some ByCount
      else if sortByAverageSize u \<noteq> 0 then Some ByAverageSize
      else None)"

definition keyTie :: "ncduSort \<Rightarrow> nat \<Rightarrow> nat \<Rightarrow> bool" where
  "keyTie ds i j =
     (case activeKey (ds_u ds) of
        Some BySize \<Rightarrow> Size (iattrs ds i) = Size (iattrs ds j)
      | Some ByCount \<Rightarrow> Count (iattrs ds i) = Count (iattrs ds j)
      | Some ByAverageSize \<Rightarrow> iAvgSize ds i = iAvgSize ds j
      | Some ByName \<Rightarrow> iname ds i = iname ds j
      | None \<Rightarrow> True)"

section \<open>Auxiliary facts\<close>

lemma keeps_sortFlag: "keeps u u' \<Longrightarrow> sortFlag k u' = sortFlag k u"
  by (cases k) (simp_all add: keeps_def)

lemma keeps_inv: "keeps u u' \<Longrightarrow> stateInv u \<Longrightarrow> stateInv u'"
  unfolding stateInv_def consistent_def oneSortKey_def
  by (simp add: keeps_sortFlag) (cases "ui_d u"; simp add: keeps_def)

lemma keeps_refl[simp]: "keeps u u" by (simp add: keeps_def)
lemma keeps_trans: "keeps u v \<Longrightarrow> keeps v w \<Longrightarrow> keeps u w" by (simp add: keeps_def)

lemma sortCurrentDir_keeps: "sortCurrentDir u = Inr u' \<Longrightarrow> keeps u u'"
  unfolding sortCurrentDir_def Let_def
  by (cases "length (entries u) < 2"; cases "ui_d u"; simp add: keeps_def split: if_splits; fastforce)


lemma toggleSelect_keeps: "toggleSelectForCursor u = Inr u' \<Longrightarrow> keeps u u'"
  unfolding toggleSelectForCursor_def Let_def
  by (simp add: keeps_def split: sum.splits if_splits) auto

lemma move_keeps: "move dl u = Inr u' \<Longrightarrow> keeps u u'"
proof (cases "ui_d u = None")
  case True
  assume "move dl u = Inr u'"
  with True show ?thesis by (simp add: move_def)
next
  case False
  assume m: "move dl u = Inr u'"
  show ?thesis
  proof (cases "visualSelectMode u")
    case True
    with m False obtain v where t: "toggleSelectForCursor u = Inr v"
      and u': "\<exists>dp. u' = v\<lparr>dirPosMap := (dirPosMap v)(path v := dp)\<rparr>"
      by (auto simp: move_def Let_def split: sum.splits)
    from u' toggleSelect_keeps[OF t] show ?thesis by (auto simp: keeps_def)
  next
    case F: False
    with m False have "\<exists>dp. u' = u\<lparr>dirPosMap := (dirPosMap u)(path u := dp)\<rparr>"
      by (auto simp: move_def Let_def)
    then show ?thesis by (auto simp: keeps_def)
  qed
qed

lemma sameFlags_sortFlag: "sameFlags u u' \<Longrightarrow> sortFlag k u' = sortFlag k u"
  by (cases k) (simp_all add: sameFlags_def)

lemma sameFlags_inv: "sameFlags u u' \<Longrightarrow> consistent u' \<Longrightarrow> oneSortKey u \<Longrightarrow> stateInv u'"
  by (simp add: stateInv_def oneSortKey_def sameFlags_sortFlag)

lemma keeps_sameFlags: "keeps u u' \<Longrightarrow> sameFlags u u'"
  by (simp add: keeps_def sameFlags_def)

lemma setCurrentDir_inv:
  assumes "setCurrentDir env a u = Inr u'"
  shows "sameFlags u u' \<and> consistent u' \<and> heap u' = heap u \<and> ui_d u' = Some a"
proof -
  let ?v = "u\<lparr>ui_d := Some a, entries := Entries (heap u a),
          path := JoinRootPath env (fsName u) (Path (heap u a)),
          selectedEntries := Map.empty, visualSelectMode := False\<rparr>"
  from assms have "sortCurrentDir ?v = Inr u'" by (simp add: setCurrentDir_def)
  from sortCurrentDir_keeps[OF this] show ?thesis
    by (simp add: keeps_def sameFlags_def consistent_def)
qed

lemma removeEntry_inv:
  assumes "removeEntry env pos u = Inr u'"
  shows "sameFlags u u' \<and> consistent u' \<and> ui_d u' = ui_d u"
proof -
  from assms obtain a dr where a: "ui_d u = Some a" and "Remove (heap u a) pos = Inr dr"
    and s: "setCurrentDir env a (u\<lparr>heap := (heap u)(a := dr)\<rparr>) = Inr u'"
    by (auto simp: removeEntry_def split: option.splits sum.splits)
  from setCurrentDir_inv[OF s] a show ?thesis by (simp add: sameFlags_def)
qed

lemma removeEntries_inv:
  "removeEntries env ps u = Inr u' \<Longrightarrow> sameFlags u u' \<and> (consistent u \<longrightarrow> consistent u') \<and> ui_d u' = ui_d u"
proof (induction ps arbitrary: u)
  case Nil
  then show ?case by (simp add: sameFlags_def)
next
  case (Cons p ps)
  then obtain v where r: "removeEntry env (int p) u = Inr v" and rest: "removeEntries env ps v = Inr u'"
    by (auto split: sum.splits)
  from removeEntry_inv[OF r] Cons.IH[OF rest] show ?case by (simp add: sameFlags_def)
qed

lemma deleteLoop_keeps: "deleteLoop kvs u ps = Inr (u1, ps1, err) \<Longrightarrow> keeps u u1"
proof (induction kvs arbitrary: u ps)
  case Nil
  then show ?case by simp
next
  case (Cons kv kvs)
  obtain key cursorPos where kv: "kv = (key, cursorPos)" by (cases kv)
  from Cons.prems kv obtain dirPos dirEntry f' e where
    "index (sortPerm u) (entry cursorPos) = Inr dirPos" "index (entries u) (int dirPos) = Inr dirEntry"
    and d: "(if isObject dirEntry then DeleteFile (ui_f u) dirEntry else Purge (ui_f u) (String dirEntry)) = (f', e)"
    and r: "(case e of Some err \<Rightarrow> Inr (u\<lparr>ui_f := f'\<rparr>, ps, Some err)
                | None \<Rightarrow> deleteLoop kvs (u\<lparr>ui_f := f', selectedEntries := (selectedEntries u)(key := None)\<rparr>) (ps @ [dirPos])) = Inr (u1, ps1, err)"
    by (auto split: sum.splits prod.splits)
  show ?case
  proof (cases e)
    case None
    with r have "deleteLoop kvs (u\<lparr>ui_f := f', selectedEntries := (selectedEntries u)(key := None)\<rparr>) (ps @ [dirPos]) = Inr (u1, ps1, err)" by simp
    from Cons.IH[OF this] show ?thesis by (simp add: keeps_def)
  next
    case (Some a)
    with r show ?thesis by (auto simp: keeps_def)
  qed
qed

lemma pres_refl [simp]: "pres u u" by (simp add: pres_def sameFlags_def)
lemma pres_trans: "pres u v \<Longrightarrow> pres v w \<Longrightarrow> pres u w" by (simp add: pres_def sameFlags_def)
lemma keeps_pres: "keeps u u' \<Longrightarrow> pres u u'"
  by (cases "ui_d u") (simp_all add: pres_def keeps_def sameFlags_def consistent_def)
lemma pres_inv: "pres u u' \<Longrightarrow> stateInv u \<Longrightarrow> stateInv u'"
  unfolding pres_def stateInv_def oneSortKey_def by (auto simp: sameFlags_sortFlag)
lemma setCurrentDir_pres: "setCurrentDir env a u = Inr u' \<Longrightarrow> pres u u'"
  using setCurrentDir_inv[of env a u u'] by (simp add: pres_def)
lemma removeEntry_pres: "removeEntry env pos u = Inr u' \<Longrightarrow> pres u u'"
  using removeEntry_inv[of env pos u u'] by (simp add: pres_def)
lemma removeEntries_pres: "removeEntries env ps u = Inr u' \<Longrightarrow> pres u u'"
  using removeEntries_inv[of env ps u u'] by (simp add: pres_def)
lemma move_pres: "move dl u = Inr u' \<Longrightarrow> pres u u'"
  by (rule keeps_pres) (rule move_keeps)
lemma ui_f_update_pres [simp]: "pres u (u\<lparr>ui_f := f'\<rparr>)"
  by (rule keeps_pres) (simp add: keeps_def)

lemma afterRemove_pres:
  assumes "removeEntry env pos (u\<lparr>ui_f := f'\<rparr>) = Inr u1"
    and "(if c then move (- 1) u1 else Inr u1) = Inr u2"
  shows "pres u u2"
proof -
  have a: "pres u u1" using pres_trans[OF ui_f_update_pres removeEntry_pres[OF assms(1)]] .
  have "pres u1 u2" using assms(2) by (cases c) (auto dest: move_pres)
  with a show ?thesis by (rule pres_trans)
qed

lemma deleteFileRun_pres: "deleteFileRun env obj dirPos cursorPos opt u = Inr (u', msg, err) \<Longrightarrow> pres u u'"
  unfolding deleteFileRun_def
  by (cases "opt = 1"; cases "DeleteFile (ui_f u) obj"; simp split: option.splits sum.splits)
     (auto dest: afterRemove_pres)

lemma purgeRun_pres: "purgeRun env obj dirPos cursorPos opt u = Inr (u', msg, err) \<Longrightarrow> pres u u'"
  unfolding purgeRun_def
  by (cases "opt = 1"; cases "Purge (ui_f u) (String obj)"; simp split: option.splits sum.splits)
     (auto dest: afterRemove_pres)

lemma deleteSelectedRun_pres:
  assumes "deleteSelectedRun env kvs opt u = Inr (u', msg, err)"
  shows "pres u u'"
proof (cases "opt = 1")
  case False
  with assms show ?thesis by (simp add: deleteSelectedRun_def)
next
  case True
  with assms obtain u1 ps e where l: "deleteLoop kvs u [] = Inr (u1, ps, e)"
    by (auto simp: deleteSelectedRun_def split: sum.splits)
  have p1: "pres u u1" using deleteLoop_keeps[OF l] by (rule keeps_pres)
  show ?thesis
  proof (cases e)
    case (Some a)
    with assms True l p1 show ?thesis by (simp add: deleteSelectedRun_def)
  next
    case None
    with assms True l obtain u2 where r: "removeEntries env (sortDescending ps) u1 = Inr u2"
      and m: "(if entry (dirPosMap u2 (path u2)) \<ge> int (length (entries u2)) then move (- 1) u2 else Inr u2) = Inr u'"
      by (auto simp: deleteSelectedRun_def split: sum.splits)
    have "pres u2 u'" using m by (auto dest: move_pres split: if_splits)
    with pres_trans[OF p1 removeEntries_pres[OF r]] show ?thesis by (rule pres_trans)
  qed
qed

lemma runHandler_pres: "runHandler env kvs hdl opt u = Inr (u', msg, err) \<Longrightarrow> pres u u'"
  by (cases hdl) (auto dest: deleteFileRun_pres purgeRun_pres deleteSelectedRun_pres)

lemma popupBox_keeps [simp]: "keeps u (popupBox t u)" by (simp add: popupBox_def keeps_def)

lemma handleBoxOption_pres:
  assumes "handleBoxOption env kvs u = Inr u'"
  shows "pres u u'"
proof -
  from assms obtain hdl where h: "boxMenuHandler u = Some hdl"
    by (auto simp: handleBoxOption_def split: option.splits)
  with assms obtain u1 msg err where r: "runHandler env kvs hdl (boxMenuButton u) u = Inr (u1, msg, err)"
    by (auto simp: handleBoxOption_def split: sum.splits)
  with assms h have "keeps u1 u'"
    by (cases err) (auto simp: handleBoxOption_def Let_def keeps_def popupBox_def)
  with runHandler_pres[OF r] show ?thesis by (blast intro: pres_trans keeps_pres)
qed

lemma deleteSingle_keeps: "deleteSingle env u = Inr u' \<Longrightarrow> keeps u u'"
  unfolding deleteSingle_def Let_def
  by (simp split: sum.splits if_splits) (auto simp: keeps_def popupBox_def)

lemma deleteSelected_keeps [simp]: "keeps u (deleteSelected env u)"
  by (simp add: deleteSelected_def keeps_def popupBox_def)

lemma delete_keeps: "delete env u = Inr u' \<Longrightarrow> keeps u u'"
  unfolding delete_def by (auto dest: deleteSingle_keeps split: if_splits)

lemma enter_pres: "enter env u = Inr u' \<Longrightarrow> pres u u'"
  unfolding enter_def
  by (cases "ui_d u"; simp split: if_splits sum.splits option.splits) (auto dest: setCurrentDir_pres)

lemma up_pres: "up env u = Inr u' \<Longrightarrow> pres u u'"
  unfolding up_def
  by (cases "ui_d u"; simp split: option.splits) (auto dest: setCurrentDir_pres)

lemma sortCurrentDir_total: "consistent u \<Longrightarrow> \<exists>u'. sortCurrentDir u = Inr u'"
  unfolding sortCurrentDir_def Let_def consistent_def
  by (cases "ui_d u"; simp add: Entries_def)

lemma toggleSort_flags:
  assumes "toggleSort k u = Inr u'"
  shows "sortFlag k u' = (if sortFlag k u = 0 then 1 else - sortFlag k u)
     \<and> (\<forall>k'. k' \<noteq> k \<longrightarrow> sortFlag k' u' = 0)
     \<and> ui_d u' = ui_d u \<and> entries u' = entries u \<and> heap u' = heap u"
proof -
  let ?u1 = "u\<lparr>sortBySize := 0, sortByCount := 0, sortByName := 0, sortByAverageSize := 0\<rparr>"
  let ?u2 = "if sortFlag k u = 0 then setSortFlag k 1 ?u1 else setSortFlag k (- sortFlag k u) ?u1"
  from assms have "sortCurrentDir ?u2 = Inr u'" by (simp add: toggleSort_def Let_def)
  from sortCurrentDir_keeps[OF this] have k: "keeps ?u2 u'" .
  have f: "sortFlag k' u' = sortFlag k' ?u2" for k' using keeps_sortFlag[OF k] .
  have 1: "sortFlag k ?u2 = (if sortFlag k u = 0 then 1 else - sortFlag k u)"
    by (cases k) simp_all
  have 2: "k' \<noteq> k \<Longrightarrow> sortFlag k' ?u2 = 0" for k'
    by (cases k; cases k') simp_all
  have 3: "ui_d ?u2 = ui_d u \<and> entries ?u2 = entries u \<and> heap ?u2 = heap u"
    by (cases k) simp_all
  from k 3 have "ui_d u' = ui_d u \<and> entries u' = entries u \<and> heap u' = heap u"
    by (simp add: keeps_def)
  with f 1 2 show ?thesis by simp
qed

lemma toggleSort_total:
  assumes "consistent u"
  shows "\<exists>u'. toggleSort k u = Inr u'"
proof -
  let ?u1 = "u\<lparr>sortBySize := 0, sortByCount := 0, sortByName := 0, sortByAverageSize := 0\<rparr>"
  let ?u2 = "if sortFlag k u = 0 then setSortFlag k 1 ?u1 else setSortFlag k (- sortFlag k u) ?u1"
  have "consistent ?u2" using assms by (cases k; cases "ui_d u") (simp_all add: consistent_def)
  from sortCurrentDir_total[OF this] show ?thesis by (simp add: toggleSort_def Let_def)
qed

lemma toggleSort_inv:
  assumes t: "toggleSort k u = Inr u'" and i: "stateInv u"
  shows "stateInv u'"
proof -
  note fl = toggleSort_flags[OF t]
  from i have c: "consistent u" and o: "oneSortKey u" by (simp_all add: stateInv_def)
  from c fl have c': "consistent u'" by (cases "ui_d u") (simp_all add: consistent_def)
  from o have "sortFlag k u = 0 \<or> sortFlag k u = 1 \<or> sortFlag k u = - 1"
    unfolding oneSortKey_def by metis
  with fl have "sortFlag k u' = 1 \<or> sortFlag k u' = - 1" by auto
  with fl have "oneSortKey u'" unfolding oneSortKey_def by blast
  with c' show ?thesis by (simp add: stateInv_def)
qed

lemma Draw_keeps: "Draw h u = Inr u' \<Longrightarrow> keeps u u'"
  by (auto simp: Draw_def Let_def keeps_def split: if_splits)

lemma run_Inr: "run r = Inr u' \<longleftrightarrow> r = Inr u'"
  by (cases r) (simp_all add: run_def)

lemma moveBox_keeps [simp]: "keeps u (moveBox t u)"
  by (simp add: moveBox_def keeps_def Let_def)

lemma togglePopupBox_keeps [simp]: "keeps u (togglePopupBox t u)"
  by (simp add: togglePopupBox_def keeps_def popupBox_def)

lemma handleKey_cases:
  assumes "handleKey env kvs k u = Inr u'"
  shows "pres u u' \<or> (\<exists>sk. toggleSort sk u = Inr u')"
proof (cases k)
  case KeyEsc
  with assms have "keeps u u'" by (auto simp: keeps_def split: if_splits)
  then show ?thesis by (simp add: keeps_pres)
next
  case KeyArrowLeft
  with assms show ?thesis
    by (cases "showBox u") (auto simp: run_Inr intro: keeps_pres dest: up_pres)
next
  case KeyEnter
  with assms show ?thesis
    by (cases "length (boxMenu u) > 0") (auto simp: run_Inr dest: enter_pres handleBoxOption_pres)
next
  case KeyArrowRight
  with assms show ?thesis
    by (cases "showBox u") (auto simp: run_Inr intro: keeps_pres dest: enter_pres)
next
  case Key_c
  with assms have "keeps u u'" by (auto simp: keeps_def)
  then show ?thesis by (simp add: keeps_pres)
next
  case Key_g
  with assms have "keeps u u'" by (auto simp: keeps_def)
  then show ?thesis by (simp add: keeps_pres)
next
  case Key_a
  with assms have "keeps u u'" by (auto simp: keeps_def)
  then show ?thesis by (simp add: keeps_pres)
next
  case Key_V
  with assms have "keeps u u'" by (auto simp: keeps_def)
  then show ?thesis by (simp add: keeps_pres)
next
  case Key_u
  with assms have "keeps u u'" by (auto simp: keeps_def)
  then show ?thesis by (simp add: keeps_pres)
qed (use assms in \<open>auto simp: run_Inr displayPath_def
       intro: keeps_pres dest: move_keeps toggleSelect_keeps delete_keeps\<close>)

lemma handleKey_inv:
  assumes "handleKey env kvs k u = Inr u'" and "stateInv u"
  shows "stateInv u'"
proof -
  from handleKey_cases[OF assms(1)] show ?thesis
  proof
    assume "pres u u'"
    then show ?thesis using assms(2) by (rule pres_inv)
  next
    assume "\<exists>sk. toggleSort sk u = Inr u'"
    then obtain sk where "toggleSort sk u = Inr u'" ..
    then show ?thesis using assms(2) by (rule toggleSort_inv)
  qed
qed

lemma handleEvent_inv:
  assumes "handleEvent env kvs ev u = Inr u'" and "stateInv u"
  shows "stateInv u'"
proof (cases ev)
  case (RootChan r)
  with assms(1) have "setCurrentDir env r (u\<lparr>root := Some r\<rparr>) = Inr u'" by (simp add: run_Inr)
  from setCurrentDir_pres[OF this] have "pres (u\<lparr>root := Some r\<rparr>) u'" .
  moreover have "pres u (u\<lparr>root := Some r\<rparr>)" by (rule keeps_pres) (simp add: keeps_def)
  ultimately show ?thesis using assms(2) by (blast intro: pres_inv pres_trans)
next
  case (ErrChan e)
  with assms(1) have "keeps u u'" by (cases e) (auto simp: keeps_def)
  then show ?thesis using assms(2) by (rule keeps_inv)
next
  case Updated
  with assms(1) have "keeps u u'" by (simp add: run_Inr sortCurrentDir_keeps)
  then show ?thesis using assms(2) by (rule keeps_inv)
next
  case (EventKey k)
  with assms(1) have "handleKey env kvs k u = Inr u'" by simp
  then show ?thesis using assms(2) by (rule handleKey_inv)
qed

lemma step_inv:
  assumes "step env h kvs ev u = Inr u'" and "stateInv u"
  shows "stateInv u'"
proof -
  from assms(1) obtain u1 where d: "Draw h u = Inr u1" and e: "handleEvent env kvs ev u1 = Inr u'"
    by (auto simp: step_def split: sum.splits)
  have "stateInv u1" using Draw_keeps[OF d] assms(2) by (rule keeps_inv)
  with e show ?thesis by (rule handleEvent_inv)
qed

lemma Show_init_inv: "stateInv (Show_init f name h)"
proof -
  have 0: "sortFlag k' (Show_init f name h) = 0" if "k' \<noteq> BySize" for k'
    using that by (cases k') (simp_all add: Show_init_def NewUI_def)
  have 1: "sortFlag BySize (Show_init f name h) = 1" by (simp add: Show_init_def NewUI_def)
  have "oneSortKey (Show_init f name h)"
    unfolding oneSortKey_def using 0 1 by blast
  then show ?thesis by (simp add: stateInv_def consistent_def Show_init_def NewUI_def)
qed

lemma reachable_inv: "reachable env u \<Longrightarrow> stateInv u"
proof (induction rule: reachable.induct)
  case (start f name h)
  show ?case by (rule Show_init_inv)
next
  case (turn u kvs h ev u')
  from turn.hyps(3) turn.IH show ?case by (rule step_inv)
next
  case (scan u h')
  have "sameFlags u (u\<lparr>heap := h'\<rparr>)" by (simp add: sameFlags_def)
  from sameFlags_sortFlag[OF this] scan.IH have "oneSortKey (u\<lparr>heap := h'\<rparr>)"
    unfolding stateInv_def oneSortKey_def by simp
  moreover from scan have "consistent (u\<lparr>heap := h'\<rparr>)"
    by (cases "ui_d u") (simp_all add: stateInv_def consistent_def)
  ultimately show ?case by (simp add: stateInv_def)
qed

lemma oneSortKey_unique:
  assumes "oneSortKey u"
  shows "\<exists>!k. sortFlag k u \<noteq> 0"
proof -
  from assms obtain k where k: "sortFlag k u = 1 \<or> sortFlag k u = - 1"
    and o: "\<And>k'. k' \<noteq> k \<Longrightarrow> sortFlag k' u = 0"
    unfolding oneSortKey_def by blast
  from k have nz: "sortFlag k u \<noteq> 0" by auto
  show ?thesis
  proof (rule ex1I[of _ k])
    show "sortFlag k u \<noteq> 0" by (rule nz)
  next
    fix k' assume "sortFlag k' u \<noteq> 0"
    with o[of k'] show "k' = k" by (cases "k' = k") simp_all
  qed
qed


lemma Len_Swap [simp]: "Len (Swap ds i j) = Len ds"
  by (simp add: Len_def Swap_def)

lemma mset_Swap: "i < Len ds \<Longrightarrow> j < Len ds \<Longrightarrow> mset (ds_sortPerm (Swap ds i j)) = mset (ds_sortPerm ds)"
  by (simp add: Len_def Swap_def mset_swap)

lemma sink_perm: "j < Len ds \<Longrightarrow> Len (sink ds j) = Len ds \<and> mset (ds_sortPerm (sink ds j)) = mset (ds_sortPerm ds)"
proof (induction j arbitrary: ds)
  case 0
  then show ?case by simp
next
  case (Suc j)
  show ?case
  proof (cases "Less ds (Suc j) j")
    case True
    from Suc.prems have "j < Len (Swap ds (Suc j) j)" by simp
    from Suc.IH[OF this] mset_Swap[of "Suc j" ds j] Suc.prems True show ?thesis by simp
  next
    case False
    then show ?thesis by simp
  qed
qed

lemma foldl_sink_perm:
  "\<forall>i\<in>set is. i < Len ds \<Longrightarrow>
     Len (foldl sink ds is) = Len ds \<and> mset (ds_sortPerm (foldl sink ds is)) = mset (ds_sortPerm ds)"
proof (induction "is" arbitrary: ds)
  case Nil
  then show ?case by simp
next
  case (Cons i "is")
  from Cons.prems have i: "i < Len ds" by simp
  note s = sink_perm[OF i]
  from Cons.prems s have "\<forall>k\<in>set is. k < Len (sink ds i)" by simp
  from Cons.IH[OF this] s show ?case by simp
qed

lemma sort_Sort_perm: "mset (ds_sortPerm (sort_Sort ds)) = mset (ds_sortPerm ds)"
  unfolding sort_Sort_def by (rule conjunct2[OF foldl_sink_perm]) simp

text \<open>The sort reads the user interface only through the four sort flags.\<close>

lemma Less_cong:
  assumes "sameFlags (ds_u ds) v"
  shows "Less (ds\<lparr>ds_u := v\<rparr>) i j = Less ds i j"
proof -
  from assms have "sortByName v = sortByName (ds_u ds)" "sortBySize v = sortBySize (ds_u ds)"
    "sortByCount v = sortByCount (ds_u ds)" "sortByAverageSize v = sortByAverageSize (ds_u ds)"
    by (simp_all add: sameFlags_def)
  then show ?thesis unfolding Less_def by (simp cong: if_cong split del: if_split)
qed

lemma Swap_ds_u: "Swap (ds\<lparr>ds_u := v\<rparr>) i j = (Swap ds i j)\<lparr>ds_u := v\<rparr>"
  by (simp add: Swap_def)

lemma ds_u_Swap [simp]: "ds_u (Swap ds i j) = ds_u ds"
  by (simp add: Swap_def)

lemma sink_cong:
  "sameFlags (ds_u ds) v \<Longrightarrow> sink (ds\<lparr>ds_u := v\<rparr>) j = (sink ds j)\<lparr>ds_u := v\<rparr>"
proof (induction j arbitrary: ds)
  case 0
  then show ?case by simp
next
  case (Suc j)
  from Suc.prems have "sameFlags (ds_u (Swap ds (Suc j) j)) v" by simp
  from Suc.IH[OF this] Suc.prems show ?case by (simp add: Less_cong Swap_ds_u)
qed

lemma ds_u_sink [simp]: "ds_u (sink ds j) = ds_u ds"
  by (induction j arbitrary: ds) simp_all

lemma foldl_sink_cong:
  "sameFlags (ds_u ds) v \<Longrightarrow> foldl sink (ds\<lparr>ds_u := v\<rparr>) is = (foldl sink ds is)\<lparr>ds_u := v\<rparr>"
proof (induction "is" arbitrary: ds)
  case Nil
  then show ?case by simp
next
  case (Cons i "is")
  from Cons.prems have "sameFlags (ds_u (sink ds i)) v" by simp
  from Cons.IH[OF this] Cons.prems show ?case by (simp add: sink_cong)
qed

lemma sort_Sort_cong:
  "sameFlags (ds_u ds) v \<Longrightarrow> ds_sortPerm (sort_Sort (ds\<lparr>ds_u := v\<rparr>)) = ds_sortPerm (sort_Sort ds)"
  by (simp add: sort_Sort_def Len_def foldl_sink_cong)

lemma length_invert [simp]: "length (invert i js iv) = length iv"
  by (induction js arbitrary: i iv) simp_all

lemma invert_other: "j \<notin> set js \<Longrightarrow> invert i js iv ! j = iv ! j"
  by (induction js arbitrary: i iv) simp_all

lemma invert_nth:
  "distinct js \<Longrightarrow> \<forall>j\<in>set js. j < length iv \<Longrightarrow> k < length js \<Longrightarrow> invert i js iv ! (js ! k) = i + k"
proof (induction js arbitrary: i iv k)
  case Nil
  then show ?case by simp
next
  case (Cons j js)
  show ?case
  proof (cases k)
    case 0
    with Cons.prems show ?thesis by (simp add: invert_other)
  next
    case (Suc k')
    with Cons.prems Cons.IH[of "iv[j := i]" k' "Suc i"] show ?thesis by simp
  qed
qed

lemma sortCurrentDir_sortPerm:
  assumes "sortCurrentDir u = Inr u'"
  shows "(length (entries u) < 2 \<and> sortPerm u' = [0..<length (entries u)]) \<or>
         (\<not> length (entries u) < 2 \<and> (\<exists>a. ui_d u = Some a \<and>
            sortPerm u' = ds_sortPerm (sort_Sort
               \<lparr>ds_sortPerm = [0..<length (entries u)], ds_entries = entries u,
                ds_d = heap u a, ds_u = u\<rparr>)))"
proof (cases "length (entries u) < 2")
  case True
  with assms show ?thesis by (auto simp: sortCurrentDir_def Let_def)
next
  case False
  with assms obtain a where "ui_d u = Some a"
    by (cases "ui_d u") (simp_all add: sortCurrentDir_def Let_def)
  with assms False show ?thesis
    by (auto simp: sortCurrentDir_def Let_def split: if_splits)
qed

lemma sortCurrentDir_invSortPerm:
  assumes "sortCurrentDir u = Inr u'"
  shows "invSortPerm u' = invert 0 (sortPerm u')
           (if length (invSortPerm u) < length (sortPerm u')
            then replicate (length (sortPerm u')) 0 else invSortPerm u)"
proof (cases "length (entries u) < 2")
  case True
  with assms show ?thesis by (auto simp: sortCurrentDir_def Let_def)
next
  case False
  with assms obtain a where "ui_d u = Some a"
    by (cases "ui_d u") (simp_all add: sortCurrentDir_def Let_def)
  with assms False show ?thesis
    by (auto simp: sortCurrentDir_def Let_def split: if_splits)
qed

lemma sortCurrentDir_mset:
  assumes "sortCurrentDir u = Inr u'"
  shows "mset (sortPerm u') = mset [0..<length (entries u)]"
  using sortCurrentDir_sortPerm[OF assms] by (auto simp: sort_Sort_perm)

lemma sortCurrentDir_length:
  assumes "sortCurrentDir u = Inr u'"
  shows "length (sortPerm u') = length (entries u)"
  using arg_cong[OF sortCurrentDir_mset[OF assms], of size] by simp

lemma sortCurrentDir_set:
  assumes "sortCurrentDir u = Inr u'"
  shows "set (sortPerm u') = {..<length (entries u)}"
  using mset_eq_setD[OF sortCurrentDir_mset[OF assms]] by (simp add: lessThan_atLeast0)

lemma sortCurrentDir_distinct:
  assumes "sortCurrentDir u = Inr u'"
  shows "distinct (sortPerm u')"
  using mset_eq_imp_distinct_iff[OF sortCurrentDir_mset[OF assms]] by simp

lemma sortCurrentDir_inverse:
  assumes "sortCurrentDir u = Inr u'" and "i < length (entries u)"
  shows "invSortPerm u' ! (sortPerm u' ! i) = i"
proof -
  let ?iv = "if length (invSortPerm u) < length (sortPerm u')
            then replicate (length (sortPerm u')) 0 else invSortPerm u"
  note len = sortCurrentDir_length[OF assms(1)]
  have "\<forall>j\<in>set (sortPerm u'). j < length ?iv"
    using sortCurrentDir_set[OF assms(1)] len by auto
  from invert_nth[OF sortCurrentDir_distinct[OF assms(1)] this, of i 0] assms(2) len
  show ?thesis by (simp add: sortCurrentDir_invSortPerm[OF assms(1)])
qed

lemma sortCurrentDir_deterministic:
  assumes u: "sortCurrentDir u = Inr u'" and v: "sortCurrentDir v = Inr v'"
    and e: "entries v = entries u" and d: "ui_d v = ui_d u"
    and h: "\<forall>a. ui_d u = Some a \<longrightarrow> heap v a = heap u a" and f: "sameFlags u v"
  shows "sortPerm v' = sortPerm u'"
proof (cases "length (entries u) < 2")
  case True
  with sortCurrentDir_sortPerm[OF u] sortCurrentDir_sortPerm[OF v] e
  show ?thesis by auto
next
  case False
  let ?ds = "\<lambda>a. \<lparr>ds_sortPerm = [0..<length (entries u)], ds_entries = entries u,
              ds_d = heap u a, ds_u = u\<rparr>"
  from False sortCurrentDir_sortPerm[OF u] obtain a where a: "ui_d u = Some a"
    and su: "sortPerm u' = ds_sortPerm (sort_Sort (?ds a))" by auto
  from False e d a h sortCurrentDir_sortPerm[OF v]
  have sv: "sortPerm v' = ds_sortPerm (sort_Sort ((?ds a)\<lparr>ds_u := v\<rparr>))" by auto
  have "sameFlags (ds_u (?ds a)) v" using f by simp
  from sort_Sort_cong[OF this] su sv show ?thesis by simp
qed


lemma sless_cases: "(x::8 word) <s 0 \<or> 0 <s x \<or> x = 0"
  by (auto simp: word_sless_alt) (metis linorder_neqE_linordered_idom signed_eq_0_iff)

lemma sless_zero [simp]: "\<not> (0::8 word) <s 0"
  by simp

lemma sless_neq: "(x::8 word) <s 0 \<Longrightarrow> x \<noteq> 0" "0 <s (x::8 word) \<Longrightarrow> x \<noteq> 0"
  by auto

lemma sless_asym: "(x::8 word) <s 0 \<Longrightarrow> \<not> 0 <s x"
  by (simp add: word_sless_alt)

lemma Less_unfold:
  "Less ds i j =
     (if sortByName (ds_u ds) <s 0 then iname ds i > iname ds j
      else if 0 <s sortByName (ds_u ds) then iname ds i < iname ds j
      else if sortBySize (ds_u ds) <s 0 then
        (if Size (iattrs ds i) \<noteq> Size (iattrs ds j) then Size (iattrs ds i) < Size (iattrs ds j)
         else iname ds i < iname ds j)
      else if 0 <s sortBySize (ds_u ds) then
        (if Size (iattrs ds i) \<noteq> Size (iattrs ds j) then Size (iattrs ds i) > Size (iattrs ds j)
         else iname ds i < iname ds j)
      else if sortByCount (ds_u ds) <s 0 then
        (if Count (iattrs ds i) \<noteq> Count (iattrs ds j) then Count (iattrs ds i) < Count (iattrs ds j)
         else iname ds i < iname ds j)
      else if 0 <s sortByCount (ds_u ds) then
        (if Count (iattrs ds i) \<noteq> Count (iattrs ds j) then Count (iattrs ds i) > Count (iattrs ds j)
         else iname ds i < iname ds j)
      else if sortByAverageSize (ds_u ds) <s 0 then
        (if iAvgSize ds i \<noteq> iAvgSize ds j then iAvgSize ds i < iAvgSize ds j
         else Size (iattrs ds i) < Size (iattrs ds j))
      else if 0 <s sortByAverageSize (ds_u ds) then
        (if iAvgSize ds i \<noteq> iAvgSize ds j then iAvgSize ds i > iAvgSize ds j
         else Size (iattrs ds i) > Size (iattrs ds j))
      else iname ds i < iname ds j)"
  unfolding Less_def iname_def iattrs_def iAvgSize_def Let_def by (rule refl)


lemma activeKey_ByName:
  "activeKey u = Some ByName \<longleftrightarrow> sortByName u \<noteq> 0"
  by (simp add: activeKey_def)

lemma activeKey_BySize:
  "activeKey u = Some BySize \<longleftrightarrow> sortByName u = 0 \<and> sortBySize u \<noteq> 0"
  by (simp add: activeKey_def)

lemma activeKey_ByCount:
  "activeKey u = Some ByCount \<longleftrightarrow> sortByName u = 0 \<and> sortBySize u = 0 \<and> sortByCount u \<noteq> 0"
  by (simp add: activeKey_def)

lemma activeKey_ByAverageSize:
  "activeKey u = Some ByAverageSize \<longleftrightarrow>
     sortByName u = 0 \<and> sortBySize u = 0 \<and> sortByCount u = 0 \<and> sortByAverageSize u \<noteq> 0"
  by (simp add: activeKey_def)

lemma activeKey_None:
  "activeKey u = None \<longleftrightarrow>
     sortByName u = 0 \<and> sortBySize u = 0 \<and> sortByCount u = 0 \<and> sortByAverageSize u = 0"
  by (simp add: activeKey_def)

lemma sless_pos: "(x::8 word) \<noteq> 0 \<Longrightarrow> \<not> x <s 0 \<Longrightarrow> 0 <s x"
  using sless_cases[of x] by blast

lemma Less_ByName:
  assumes "activeKey (ds_u ds) = Some ByName"
  shows "Less ds i j = (if sortByName (ds_u ds) <s 0 then iname ds j < iname ds i
                        else iname ds i < iname ds j)"
proof -
  from assms have n: "sortByName (ds_u ds) \<noteq> 0" by (simp add: activeKey_ByName)
  show ?thesis
  proof (cases "sortByName (ds_u ds) <s 0")
    case True
    then show ?thesis by (simp add: Less_unfold)
  next
    case False
    with sless_pos[OF n] show ?thesis by (simp add: Less_unfold)
  qed
qed

lemma Less_BySize:
  assumes "activeKey (ds_u ds) = Some BySize"
  shows "Less ds i j =
     (if Size (iattrs ds i) \<noteq> Size (iattrs ds j)
      then (if sortBySize (ds_u ds) <s 0 then Size (iattrs ds i) < Size (iattrs ds j)
            else Size (iattrs ds i) > Size (iattrs ds j))
      else iname ds i < iname ds j)"
proof -
  from assms have z: "sortByName (ds_u ds) = 0" and n: "sortBySize (ds_u ds) \<noteq> 0"
    by (simp_all add: activeKey_BySize)
  show ?thesis
  proof (cases "sortBySize (ds_u ds) <s 0")
    case True
    with z show ?thesis by (simp add: Less_unfold)
  next
    case False
    with z sless_pos[OF n] show ?thesis by (simp add: Less_unfold)
  qed
qed

lemma Less_ByCount:
  assumes "activeKey (ds_u ds) = Some ByCount"
  shows "Less ds i j =
     (if Count (iattrs ds i) \<noteq> Count (iattrs ds j)
      then (if sortByCount (ds_u ds) <s 0 then Count (iattrs ds i) < Count (iattrs ds j)
            else Count (iattrs ds i) > Count (iattrs ds j))
      else iname ds i < iname ds j)"
proof -
  from assms have z: "sortByName (ds_u ds) = 0" "sortBySize (ds_u ds) = 0"
    and n: "sortByCount (ds_u ds) \<noteq> 0"
    by (simp_all add: activeKey_ByCount)
  show ?thesis
  proof (cases "sortByCount (ds_u ds) <s 0")
    case True
    with z show ?thesis by (simp add: Less_unfold)
  next
    case False
    with z sless_pos[OF n] show ?thesis by (simp add: Less_unfold)
  qed
qed

lemma Less_ByAverageSize:
  assumes "activeKey (ds_u ds) = Some ByAverageSize"
  shows "Less ds i j =
     (if iAvgSize ds i \<noteq> iAvgSize ds j
      then (if sortByAverageSize (ds_u ds) <s 0 then iAvgSize ds i < iAvgSize ds j
            else iAvgSize ds i > iAvgSize ds j)
      else (if sortByAverageSize (ds_u ds) <s 0 then Size (iattrs ds i) < Size (iattrs ds j)
            else Size (iattrs ds i) > Size (iattrs ds j)))"
proof -
  from assms have z: "sortByName (ds_u ds) = 0" "sortBySize (ds_u ds) = 0" "sortByCount (ds_u ds) = 0"
    and n: "sortByAverageSize (ds_u ds) \<noteq> 0"
    by (simp_all add: activeKey_ByAverageSize)
  show ?thesis
  proof (cases "sortByAverageSize (ds_u ds) <s 0")
    case True
    with z show ?thesis by (simp add: Less_unfold)
  next
    case False
    with z sless_pos[OF n] show ?thesis by (simp add: Less_unfold)
  qed
qed

lemma Less_None:
  assumes "activeKey (ds_u ds) = None"
  shows "Less ds i j = (iname ds i < iname ds j)"
  using assms by (simp add: activeKey_None Less_unfold)

lemma activeKey_cases:
  "activeKey u = None \<or> activeKey u = Some ByName \<or> activeKey u = Some BySize \<or>
   activeKey u = Some ByCount \<or> activeKey u = Some ByAverageSize"
  by (simp add: activeKey_def)

lemma Less_tie:
  assumes "activeKey (ds_u ds) \<noteq> Some ByAverageSize" and "keyTie ds i j"
  shows "Less ds i j = (iname ds i < iname ds j)"
  using activeKey_cases[of "ds_u ds"] assms
  by (auto simp: keyTie_def Less_None Less_ByName Less_BySize Less_ByCount split: if_splits)

lemma Less_connex:
  assumes "activeKey (ds_u ds) \<noteq> Some ByAverageSize" and "iname ds i \<noteq> iname ds j"
  shows "Less ds i j \<noteq> Less ds j i"
  using activeKey_cases[of "ds_u ds"] assms
  by (auto simp: Less_None Less_ByName Less_BySize Less_ByCount split: if_splits)

lemma Less_irrefl:
  "\<not> Less ds i i"
  using activeKey_cases[of "ds_u ds"]
  by (auto simp: Less_None Less_ByName Less_BySize Less_ByCount Less_ByAverageSize)

lemma Less_trans:
  assumes "activeKey (ds_u ds) \<noteq> Some ByAverageSize" and "Less ds i j" and "Less ds j k"
  shows "Less ds i k"
  using activeKey_cases[of "ds_u ds"] assms
  by (auto simp: Less_None Less_ByName Less_BySize Less_ByCount split: if_splits)


lemma toggleSelectForCursor_cursorEntry:
  assumes "cursorEntry u = Inr dirEntry"
  shows "toggleSelectForCursor u =
           Inr (u\<lparr>selectedEntries := toggled (selectedEntries u) (String dirEntry) (cursor u)\<rparr>)"
  using assms
  by (auto simp: cursorEntry_def toggleSelectForCursor_def toggled_def cursor_def Let_def
           split: sum.splits)


text \<open>The definitions that a run on an example unfolds.\<close>

lemmas ex_simps = ex_file_def ex_dir_def ex_heap_def ex_fs_def ex_env_def ex_start_def ex_keys_def
  Show_init_def NewUI_def step_def Draw_def observed_def cursor_def cursorEntry_def cursorName_def
  run_def setCurrentDir_def sortCurrentDir_def sort_Sort_def Len_def Less_def Swap_def AttrI_def Entries_def
  toggleSelectForCursor_def index_def toggleSort_def deleteSelected_def popupBox_def moveBox_def
  handleBoxOption_def deleteSelectedRun_def removeEntry_def Remove_def sortDescending_def move_def
  word_sless_alt DeleteFile_def Purge_def delete_def deleteSingle_def deleteFileRun_def purgeRun_def
  AverageSize_def upt_rec Let_def


text \<open>The direction of a flag, and the key that is active after \<^verbatim>\<open>toggleSort\<close>.\<close>

lemma sless_pos_iff: "(x::8 word) \<noteq> 0 \<Longrightarrow> 0 <s x \<longleftrightarrow> \<not> x <s 0"
  using sless_pos[of x] sless_asym[of x] by blast

lemma toggleSort_activeKey:
  assumes "toggleSort k u = Inr u'"
  shows "activeKey u' = Some k"
proof -
  from toggleSort_flags[OF assms]
  have f: "sortFlag k u' = (if sortFlag k u = 0 then 1 else - sortFlag k u)"
    and o: "\<And>k'. k' \<noteq> k \<Longrightarrow> sortFlag k' u' = 0" by simp_all
  from f have n: "sortFlag k u' \<noteq> 0" by (simp split: if_splits)
  show ?thesis
  proof (cases k)
    case ByName
    with n show ?thesis by (simp add: activeKey_def)
  next
    case BySize
    with n o[of ByName] show ?thesis by (simp add: activeKey_def)
  next
    case ByCount
    with n o[of ByName] o[of BySize] show ?thesis by (simp add: activeKey_def)
  next
    case ByAverageSize
    with n o[of ByName] o[of BySize] o[of ByCount] show ?thesis by (simp add: activeKey_def)
  qed
qed

lemma Less_direction:
  assumes a: "activeKey (ds_u ds) = Some k" and t: "\<not> keyTie ds i j"
  shows "Less ds i j =
     (case k of
        ByName \<Rightarrow> if 0 <s sortFlag k (ds_u ds) then iname ds i < iname ds j
                   else iname ds j < iname ds i
      | BySize \<Rightarrow> if 0 <s sortFlag k (ds_u ds) then Size (iattrs ds j) < Size (iattrs ds i)
                   else Size (iattrs ds i) < Size (iattrs ds j)
      | ByCount \<Rightarrow> if 0 <s sortFlag k (ds_u ds) then Count (iattrs ds j) < Count (iattrs ds i)
                   else Count (iattrs ds i) < Count (iattrs ds j)
      | ByAverageSize \<Rightarrow> if 0 <s sortFlag k (ds_u ds) then iAvgSize ds j < iAvgSize ds i
                   else iAvgSize ds i < iAvgSize ds j)"
proof (cases k)
  case ByName
  with a have n: "sortByName (ds_u ds) \<noteq> 0" by (simp add: activeKey_ByName)
  from a ByName show ?thesis by (simp add: Less_ByName sless_pos_iff[OF n])
next
  case BySize
  with a have n: "sortBySize (ds_u ds) \<noteq> 0" by (simp add: activeKey_BySize)
  from a t BySize have d: "Size (iattrs ds i) \<noteq> Size (iattrs ds j)" by (simp add: keyTie_def)
  from a BySize d show ?thesis by (simp add: Less_BySize sless_pos_iff[OF n])
next
  case ByCount
  with a have n: "sortByCount (ds_u ds) \<noteq> 0" by (simp add: activeKey_ByCount)
  from a t ByCount have d: "Count (iattrs ds i) \<noteq> Count (iattrs ds j)" by (simp add: keyTie_def)
  from a ByCount d show ?thesis by (simp add: Less_ByCount sless_pos_iff[OF n])
next
  case ByAverageSize
  with a have n: "sortByAverageSize (ds_u ds) \<noteq> 0" by (simp add: activeKey_ByAverageSize)
  from a t ByAverageSize have d: "iAvgSize ds i \<noteq> iAvgSize ds j" by (simp add: keyTie_def)
  from a ByAverageSize d show ?thesis by (simp add: Less_ByAverageSize sless_pos_iff[OF n])
qed

text \<open>The key average size: the order by average, then by size.\<close>

lemma Less_average_connex:
  assumes "activeKey (ds_u ds) = Some ByAverageSize"
    and "\<not> keyTie ds i j \<or> Size (iattrs ds i) \<noteq> Size (iattrs ds j)"
  shows "Less ds i j \<noteq> Less ds j i"
proof (cases "iAvgSize ds i = iAvgSize ds j")
  case True
  with assms have "Size (iattrs ds i) \<noteq> Size (iattrs ds j)" by (simp add: keyTie_def)
  with True assms(1) show ?thesis by (auto simp: Less_ByAverageSize)
next
  case False
  with assms(1) show ?thesis by (auto simp: Less_ByAverageSize)
qed

lemma Less_average_trans:
  assumes a: "activeKey (ds_u ds) = Some ByAverageSize" and "Less ds i j" and "Less ds j k"
  shows "Less ds i k"
proof (cases "sortByAverageSize (ds_u ds) <s 0")
  case True
  with assms show ?thesis by (simp add: Less_ByAverageSize split: if_splits)
next
  case False
  with assms show ?thesis by (simp add: Less_ByAverageSize split: if_splits)
qed

lemma Less_transitive:
  assumes "Less ds i j" and "Less ds j k"
  shows "Less ds i k"
proof (cases "activeKey (ds_u ds) = Some ByAverageSize")
  case True
  then show ?thesis using assms by (rule Less_average_trans)
next
  case False
  then show ?thesis using assms by (rule Less_trans)
qed

text \<open>What \<^verbatim>\<open>move\<close> returns in visual select mode, once the toggle has returned.\<close>

lemma move_after_toggle:
  assumes "ui_d u = Some a" and "visualSelectMode u" and "toggleSelectForCursor u = Inr w"
  shows "move dl u = Inr (w\<lparr>dirPosMap := (dirPosMap w)(path w := moved dl u)\<rparr>)"
  using assms
  by (simp add: move_def moved_def Let_def split del: if_split cong: if_cong)

lemma cursorEntry_entries:
  assumes "cursorEntry u = Inr dirEntry"
  shows "entries u \<noteq> []"
  using assms by (auto simp: cursorEntry_def index_def split: sum.splits if_splits)

lemma moved_entry:
  assumes "entries u \<noteq> []"
  shows "entry (moved dl u) = max 0 (min (int (length (entries u)) - 1) (entry (cursor u) + dl))"
  using assms by (cases "entries u") (auto simp: moved_def cursor_def Let_def max_def min_def)

section \<open>Sort keys\<close>

text \<open>
  Claim C9, as stated, does not hold: the flag \<open>1\<close> that the first toggle of a key
  sets is not ascending for every key. \<^verbatim>\<open>Less\<close> orders by \<^verbatim>\<open>iattrs.Size > jattrs.Size\<close>
  when \<^verbatim>\<open>sortBySize > 0\<close>, and likewise for count and average size. With the files
  \<open>a\<close> (size 10) and \<open>b\<close> (size 100), the key \<^verbatim>\<open>n\<close> sets the flag of size to \<open>0\<close>, the
  key \<^verbatim>\<open>s\<close> then toggles it from \<open>0\<close> to \<open>1\<close>, and the directory is shown with \<open>b\<close>,
  the larger file, first.
\<close>

theorem toggleSort_first_direction_counterexample:
  "observed sortBySize (steps ex_env (ex_keys [Key_n])
      (ex_start [ex_file ''a'' 10, ex_file ''b'' 100])) = Inr 0 \<and>
   observed sortBySize (steps ex_env (ex_keys [Key_n, Key_s])
      (ex_start [ex_file ''a'' 10, ex_file ''b'' 100])) = Inr 1 \<and>
   observed entries (steps ex_env (ex_keys [Key_n, Key_s])
      (ex_start [ex_file ''a'' 10, ex_file ''b'' 100]))
     = Inr [childEntry (ex_file ''a'' 10), childEntry (ex_file ''b'' 100)] \<and>
   observed sortPerm (steps ex_env (ex_keys [Key_n, Key_s])
      (ex_start [ex_file ''a'' 10, ex_file ''b'' 100])) = Inr [1, 0] \<and>
   observed cursor (steps ex_env (ex_keys [Key_n, Key_s])
      (ex_start [ex_file ''a'' 10, ex_file ''b'' 100])) = Inr \<lparr>entry = 0, offset = 0\<rparr> \<and>
   observed cursorName (steps ex_env (ex_keys [Key_n, Key_s])
      (ex_start [ex_file ''a'' 10, ex_file ''b'' 100])) = Inr (Inr ''b'')"
  by (simp add: ex_simps)

text \<open>
  Claim C9, amended. Toggling a sort key sets it to \<open>1\<close> when it was \<open>0\<close> and negates it
  otherwise, sets the three other keys to \<open>0\<close>, and leaves the toggled key as the
  active one. Under an active key whose attribute differs for two entries, a flag above
  \<open>0\<close> makes \<^verbatim>\<open>Less\<close> the ascending comparison for the key name and the descending
  comparison (larger first) for the keys size, count and average size; a flag below
  \<open>0\<close> makes it the reverse. In every state that the loop of \<^verbatim>\<open>Show\<close> can reach,
  exactly one of the four keys is not \<open>0\<close>, every key is \<open>0\<close>, \<open>1\<close> or \<open>-1\<close> (so the
  negation never wraps in \<^verbatim>\<open>int8\<close>), and toggling returns.
\<close>

theorem toggleSort_cycles:
  "(toggleSort k u = Inr u' \<longrightarrow>
      sortFlag k u' = (if sortFlag k u = 0 then 1 else - sortFlag k u) \<and>
      (\<forall>k'. k' \<noteq> k \<longrightarrow> sortFlag k' u' = 0) \<and>
      activeKey u' = Some k) \<and>
   (activeKey (ds_u ds) = Some k \<and> \<not> keyTie ds i j \<longrightarrow>
      Less ds i j =
        (case k of
           ByName \<Rightarrow> if 0 <s sortFlag k (ds_u ds) then iname ds i < iname ds j
                      else iname ds j < iname ds i
         | BySize \<Rightarrow> if 0 <s sortFlag k (ds_u ds) then Size (iattrs ds j) < Size (iattrs ds i)
                      else Size (iattrs ds i) < Size (iattrs ds j)
         | ByCount \<Rightarrow> if 0 <s sortFlag k (ds_u ds) then Count (iattrs ds j) < Count (iattrs ds i)
                      else Count (iattrs ds i) < Count (iattrs ds j)
         | ByAverageSize \<Rightarrow> if 0 <s sortFlag k (ds_u ds) then iAvgSize ds j < iAvgSize ds i
                      else iAvgSize ds i < iAvgSize ds j)) \<and>
   (reachable env v \<longrightarrow>
      (\<exists>!k. sortFlag k v \<noteq> 0) \<and>
      (\<forall>k. sortFlag k v = 0 \<or> sortFlag k v = 1 \<or> sortFlag k v = - 1) \<and>
      (\<forall>k. \<exists>v'. toggleSort k v = Inr v'))"
proof (intro conjI impI)
  assume t: "toggleSort k u = Inr u'"
  from toggleSort_flags[OF t]
  show "sortFlag k u' = (if sortFlag k u = 0 then 1 else - sortFlag k u)"
    and "\<forall>k'. k' \<noteq> k \<longrightarrow> sortFlag k' u' = 0" by simp_all
  from t show "activeKey u' = Some k" by (rule toggleSort_activeKey)
next
  assume "activeKey (ds_u ds) = Some k \<and> \<not> keyTie ds i j"
  then have "activeKey (ds_u ds) = Some k" and "\<not> keyTie ds i j" by simp_all
  then show "Less ds i j =
        (case k of
           ByName \<Rightarrow> if 0 <s sortFlag k (ds_u ds) then iname ds i < iname ds j
                      else iname ds j < iname ds i
         | BySize \<Rightarrow> if 0 <s sortFlag k (ds_u ds) then Size (iattrs ds j) < Size (iattrs ds i)
                      else Size (iattrs ds i) < Size (iattrs ds j)
         | ByCount \<Rightarrow> if 0 <s sortFlag k (ds_u ds) then Count (iattrs ds j) < Count (iattrs ds i)
                      else Count (iattrs ds i) < Count (iattrs ds j)
         | ByAverageSize \<Rightarrow> if 0 <s sortFlag k (ds_u ds) then iAvgSize ds j < iAvgSize ds i
                      else iAvgSize ds i < iAvgSize ds j)"
    by (rule Less_direction)
next
  assume "reachable env v"
  then have i: "stateInv v" by (rule reachable_inv)
  then show "\<exists>!k. sortFlag k v \<noteq> 0" by (simp add: stateInv_def oneSortKey_unique)
  from i obtain k0 where k0: "sortFlag k0 v = 1 \<or> sortFlag k0 v = - 1"
    and o: "\<And>k'. k' \<noteq> k0 \<Longrightarrow> sortFlag k' v = 0"
    unfolding stateInv_def oneSortKey_def by blast
  show "\<forall>k. sortFlag k v = 0 \<or> sortFlag k v = 1 \<or> sortFlag k v = - 1"
  proof
    fix k show "sortFlag k v = 0 \<or> sortFlag k v = 1 \<or> sortFlag k v = - 1"
      using k0 o[of k] by (cases "k = k0") auto
  qed
  from i show "\<forall>k. \<exists>v'. toggleSort k v = Inr v'"
    by (simp add: stateInv_def toggleSort_total)
qed

theorem toggleSort_cycles_witness:
  "step ex_env 23 [] (RootChan 0) (ex_start [ex_file ''a'' 10, ex_file ''b'' 100])
     = Inr (ex_after [] [ex_file ''a'' 10, ex_file ''b'' 100]) \<and>
   reachable ex_env (ex_after [] [ex_file ''a'' 10, ex_file ''b'' 100]) \<and>
   sortFlag ByName (ex_after [] [ex_file ''a'' 10, ex_file ''b'' 100]) = 0 \<and>
   sortFlag BySize (ex_after [] [ex_file ''a'' 10, ex_file ''b'' 100]) = 1 \<and>
   toggleSort ByName (ex_after [] [ex_file ''a'' 10, ex_file ''b'' 100])
     = Inr (ex_after [Key_n] [ex_file ''a'' 10, ex_file ''b'' 100]) \<and>
   sortFlag ByName (ex_after [Key_n] [ex_file ''a'' 10, ex_file ''b'' 100]) = 1 \<and>
   sortFlag BySize (ex_after [Key_n] [ex_file ''a'' 10, ex_file ''b'' 100]) = 0 \<and>
   activeKey (ex_after [Key_n] [ex_file ''a'' 10, ex_file ''b'' 100]) = Some ByName \<and>
   sortPerm (ex_after [Key_n] [ex_file ''a'' 10, ex_file ''b'' 100]) = [0, 1] \<and>
   toggleSort ByName (ex_after [Key_n] [ex_file ''a'' 10, ex_file ''b'' 100])
     = Inr (ex_after [Key_n, Key_n] [ex_file ''a'' 10, ex_file ''b'' 100]) \<and>
   sortFlag ByName (ex_after [Key_n, Key_n] [ex_file ''a'' 10, ex_file ''b'' 100]) = - 1 \<and>
   sortPerm (ex_after [Key_n, Key_n] [ex_file ''a'' 10, ex_file ''b'' 100]) = [1, 0] \<and>
   activeKey (ds_u (ex_bySize [ex_file ''a'' 10, ex_file ''b'' 100])) = Some BySize \<and>
   sortFlag BySize (ds_u (ex_bySize [ex_file ''a'' 10, ex_file ''b'' 100])) = 1 \<and>
   \<not> keyTie (ex_bySize [ex_file ''a'' 10, ex_file ''b'' 100]) 1 0 \<and>
   Less (ex_bySize [ex_file ''a'' 10, ex_file ''b'' 100]) 1 0 \<and>
   iname (ex_sort [ex_file ''a'' 10, ex_file ''b'' 100]
            (ex_after [Key_n] [ex_file ''a'' 10, ex_file ''b'' 100])) 0 = ''a'' \<and>
   iname (ex_sort [ex_file ''a'' 10, ex_file ''b'' 100]
            (ex_after [Key_n] [ex_file ''a'' 10, ex_file ''b'' 100])) 1 = ''b'' \<and>
   Less (ex_sort [ex_file ''a'' 10, ex_file ''b'' 100]
           (ex_after [Key_n] [ex_file ''a'' 10, ex_file ''b'' 100])) 0 1 \<and>
   (\<exists>v'. toggleSort ByCount (ex_after [] [ex_file ''a'' 10, ex_file ''b'' 100]) = Inr v')"
proof -
  let ?cs = "[ex_file ''a'' 10, ex_file ''b'' 100]"
  let ?U = "ex_after [] ?cs"
  let ?W = "ex_after [Key_n] ?cs"
  let ?X = "ex_after [Key_n, Key_n] ?cs"
  let ?ds = "ex_bySize ?cs"
  have s: "step ex_env 23 [] (RootChan 0) (ex_start ?cs) = Inr ?U"
    by (simp add: ex_after_def ex_simps)
  have "reachable ex_env (ex_start ?cs)" unfolding ex_start_def by (rule reachable.start)
  moreover have "rangeOrder (selectedEntries (ex_start ?cs)) []"
    by (simp add: rangeOrder_def ex_simps)
  ultimately have r: "reachable ex_env ?U" using s by (rule reachable.turn)
  have f: "sortFlag ByName ?U = 0" "sortFlag BySize ?U = 1"
    by (simp_all add: ex_after_def ex_simps)
  have t: "toggleSort ByName ?U = Inr ?W" by (simp add: ex_after_def ex_simps)
  have p: "sortPerm ?W = [0, 1]" by (simp add: ex_after_def ex_simps)
  have t2: "toggleSort ByName ?W = Inr ?X" by (simp add: ex_after_def ex_simps)
  have p2: "sortPerm ?X = [1, 0]" by (simp add: ex_after_def ex_simps)
  have d: "activeKey (ds_u ?ds) = Some BySize" "sortFlag BySize (ds_u ?ds) = 1" "\<not> keyTie ?ds 1 0"
    "Size (iattrs ?ds 0) = 10" "Size (iattrs ?ds 1) = 100"
    by (simp_all add: ex_bySize_def ex_sort_def ex_simps activeKey_def keyTie_def iattrs_def)
  note T = toggleSort_cycles[of ByName ?U ?W ?ds 1 0 ex_env ?U]
  note T2 = toggleSort_cycles[of ByName ?W ?X ?ds 1 0 ex_env ?U]
  note D = toggleSort_cycles[of BySize ?U ?W ?ds 1 0 ex_env ?U]
  from T t have 1: "sortFlag ByName ?W = (if sortFlag ByName ?U = 0 then 1 else - sortFlag ByName ?U)"
    and 2: "\<forall>k'. k' \<noteq> ByName \<longrightarrow> sortFlag k' ?W = 0"
    and 3: "activeKey ?W = Some ByName" by blast+
  from 1 f have 4: "sortFlag ByName ?W = 1" by simp
  from spec[OF 2, of BySize] have 5: "sortFlag BySize ?W = 0" by simp
  from T2 t2 have "sortFlag ByName ?X = (if sortFlag ByName ?W = 0 then 1 else - sortFlag ByName ?W)"
    by blast
  with 4 have 8: "sortFlag ByName ?X = - 1" by simp
  from D d(1,3) have "Less ?ds 1 0 =
     (if 0 <s sortFlag BySize (ds_u ?ds) then Size (iattrs ?ds 0) < Size (iattrs ?ds 1)
      else Size (iattrs ?ds 1) < Size (iattrs ?ds 0))" by simp
  with d have 6: "Less ?ds 1 0" by (simp add: word_sless_alt)
  from T r have "\<forall>k. \<exists>v'. toggleSort k ?U = Inr v'" by blast
  then have 7: "\<exists>v'. toggleSort ByCount ?U = Inr v'" by (rule spec)
  let ?dn = "ex_sort ?cs ?W"
  have n: "ds_u ?dn = ?W" by (simp add: ex_sort_def)
  have nn: "iname ?dn 0 = ''a''" "iname ?dn 1 = ''b''"
    by (simp_all add: ex_sort_def iname_def ex_file_def upt_rec)
  from 3 nn have nk: "activeKey (ds_u ?dn) = Some ByName \<and> \<not> keyTie ?dn 0 1"
    by (simp add: keyTie_def n)
  note N = toggleSort_cycles[of ByName ?U ?W ?dn 0 1 ex_env ?U]
  from N nk have "Less ?dn 0 1 =
     (if 0 <s sortFlag ByName (ds_u ?dn) then iname ?dn 0 < iname ?dn 1
      else iname ?dn 1 < iname ?dn 0)" by simp
  with 4 nn have 9: "Less ?dn 0 1" by (simp add: n word_sless_alt)
  from s r f t 4 5 3 p t2 8 p2 d(1,2,3) 6 nn 9 7 show ?thesis by blast
qed
section \<open>The sort permutation\<close>

text \<open>
  Claim C7. When \<^verbatim>\<open>sortCurrentDir\<close> returns, \<^verbatim>\<open>sortPerm\<close> has one element for each
  entry and is a bijection on the indices below the number of entries,
  \<^verbatim>\<open>invSortPerm[sortPerm[i]] == i\<close> for each such index, and sorting any state with
  the same entries, the same directory node and the same sort flags gives the same
  permutation. It returns whenever the entries are those of the current directory.
\<close>

theorem sortCurrentDir_permutation:
  "(sortCurrentDir u = Inr u' \<longrightarrow>
      length (sortPerm u') = length (entries u) \<and>
      bij_betw (\<lambda>i. sortPerm u' ! i) {..<length (entries u)} {..<length (entries u)} \<and>
      (\<forall>i<length (entries u). invSortPerm u' ! (sortPerm u' ! i) = i) \<and>
      (\<forall>v v'. sortCurrentDir v = Inr v' \<and> entries v = entries u \<and> ui_d v = ui_d u \<and>
          (\<forall>a. ui_d u = Some a \<longrightarrow> heap v a = heap u a) \<and> sameFlags u v
          \<longrightarrow> sortPerm v' = sortPerm u')) \<and>
   (consistent u \<longrightarrow> (\<exists>w. sortCurrentDir u = Inr w))"
proof (intro conjI impI allI)
  assume s: "sortCurrentDir u = Inr u'"
  show len: "length (sortPerm u') = length (entries u)" by (rule sortCurrentDir_length[OF s])
  have "bij_betw ((!) (sortPerm u')) {..<length (sortPerm u')} (set (sortPerm u'))"
    by (rule bij_betw_nth[OF sortCurrentDir_distinct[OF s] refl refl])
  then show "bij_betw (\<lambda>i. sortPerm u' ! i) {..<length (entries u)} {..<length (entries u)}"
    by (simp only: len sortCurrentDir_set[OF s])
next
  fix i assume "sortCurrentDir u = Inr u'" "i < length (entries u)"
  then show "invSortPerm u' ! (sortPerm u' ! i) = i" by (rule sortCurrentDir_inverse)
next
  fix v v'
  assume s: "sortCurrentDir u = Inr u'"
    and "sortCurrentDir v = Inr v' \<and> entries v = entries u \<and> ui_d v = ui_d u \<and>
          (\<forall>a. ui_d u = Some a \<longrightarrow> heap v a = heap u a) \<and> sameFlags u v"
  then show "sortPerm v' = sortPerm u'" using sortCurrentDir_deterministic[of u u' v v'] by blast
next
  assume "consistent u"
  then show "\<exists>w. sortCurrentDir u = Inr w" by (rule sortCurrentDir_total)
qed


theorem sortCurrentDir_permutation_witness:
  "steps ex_env (ex_keys []) (ex_start [ex_file ''a'' 10, ex_file ''b'' 100, ex_file ''c'' 50])
     = Inr (ex_after [] [ex_file ''a'' 10, ex_file ''b'' 100, ex_file ''c'' 50]) \<and>
   map Remote (entries (ex_after [] [ex_file ''a'' 10, ex_file ''b'' 100, ex_file ''c'' 50]))
     = [''a'', ''b'', ''c''] \<and>
   consistent ((ex_after [] [ex_file ''a'' 10, ex_file ''b'' 100, ex_file ''c'' 50])
                 \<lparr>sortPerm := [], invSortPerm := []\<rparr>) \<and>
   sortCurrentDir ((ex_after [] [ex_file ''a'' 10, ex_file ''b'' 100, ex_file ''c'' 50])
                 \<lparr>sortPerm := [], invSortPerm := []\<rparr>)
     = Inr (ex_after [] [ex_file ''a'' 10, ex_file ''b'' 100, ex_file ''c'' 50]) \<and>
   sortCurrentDir (ex_after [] [ex_file ''a'' 10, ex_file ''b'' 100, ex_file ''c'' 50])
     = Inr (ex_after [] [ex_file ''a'' 10, ex_file ''b'' 100, ex_file ''c'' 50]) \<and>
   sortPerm (ex_after [] [ex_file ''a'' 10, ex_file ''b'' 100, ex_file ''c'' 50]) = [1, 2, 0] \<and>
   invSortPerm (ex_after [] [ex_file ''a'' 10, ex_file ''b'' 100, ex_file ''c'' 50]) = [2, 0, 1] \<and>
   length (sortPerm (ex_after [] [ex_file ''a'' 10, ex_file ''b'' 100, ex_file ''c'' 50])) = 3 \<and>
   bij_betw ((!) (sortPerm (ex_after [] [ex_file ''a'' 10, ex_file ''b'' 100, ex_file ''c'' 50])))
     {..<3} {..<3} \<and>
   invSortPerm (ex_after [] [ex_file ''a'' 10, ex_file ''b'' 100, ex_file ''c'' 50])
     ! (sortPerm (ex_after [] [ex_file ''a'' 10, ex_file ''b'' 100, ex_file ''c'' 50]) ! 0) = 0 \<and>
   invSortPerm (ex_after [] [ex_file ''a'' 10, ex_file ''b'' 100, ex_file ''c'' 50])
     ! (sortPerm (ex_after [] [ex_file ''a'' 10, ex_file ''b'' 100, ex_file ''c'' 50]) ! 1) = 1 \<and>
   invSortPerm (ex_after [] [ex_file ''a'' 10, ex_file ''b'' 100, ex_file ''c'' 50])
     ! (sortPerm (ex_after [] [ex_file ''a'' 10, ex_file ''b'' 100, ex_file ''c'' 50]) ! 2) = 2 \<and>
   sortPerm (projr (sortCurrentDir
       ((ex_after [] [ex_file ''a'' 10, ex_file ''b'' 100, ex_file ''c'' 50])
          \<lparr>sortPerm := [2, 1, 0], invSortPerm := [0, 0, 0, 0]\<rparr>)))
     = sortPerm (ex_after [] [ex_file ''a'' 10, ex_file ''b'' 100, ex_file ''c'' 50])"
proof -
  let ?U = "ex_after [] [ex_file ''a'' 10, ex_file ''b'' 100, ex_file ''c'' 50]"
  let ?V = "?U\<lparr>sortPerm := [], invSortPerm := []\<rparr>"
  let ?W = "?U\<lparr>sortPerm := [2, 1, 0], invSortPerm := [0, 0, 0, 0]\<rparr>"
  have st: "steps ex_env (ex_keys []) (ex_start [ex_file ''a'' 10, ex_file ''b'' 100, ex_file ''c'' 50]) = Inr ?U"
    by (simp add: ex_after_def ex_simps)
  have names: "map Remote (entries ?U) = [''a'', ''b'', ''c'']"
    and len: "length (entries ?V) = 3"
    and perm: "sortPerm ?U = [1, 2, 0]" and iperm: "invSortPerm ?U = [2, 0, 1]"
    by (simp_all add: ex_after_def ex_simps)
  have c: "consistent ?V" by (simp add: consistent_def ex_after_def ex_simps)
  have s0: "sortCurrentDir ?V = Inr ?U" by (simp add: ex_after_def ex_simps)
  have s1: "sortCurrentDir ?U = Inr ?U" by (simp add: ex_after_def ex_simps)
  have cw: "consistent ?W" by (simp add: consistent_def ex_after_def ex_simps)
  note t = sortCurrentDir_permutation[of ?V ?U]
  from t s0 have l: "length (sortPerm ?U) = length (entries ?V)"
    and b: "bij_betw (\<lambda>i. sortPerm ?U ! i) {..<length (entries ?V)} {..<length (entries ?V)}"
    and i: "\<forall>i<length (entries ?V). invSortPerm ?U ! (sortPerm ?U ! i) = i"
    and d: "\<forall>v v'. sortCurrentDir v = Inr v' \<and> entries v = entries ?V \<and> ui_d v = ui_d ?V \<and>
          (\<forall>a. ui_d ?V = Some a \<longrightarrow> heap v a = heap ?V a) \<and> sameFlags ?V v
          \<longrightarrow> sortPerm v' = sortPerm ?U"
    by blast+
  from sortCurrentDir_permutation[of ?W ?U] cw obtain w where sw: "sortCurrentDir ?W = Inr w"
    by blast
  have pw: "entries ?W = entries ?V \<and> ui_d ?W = ui_d ?V \<and>
      (\<forall>a. ui_d ?V = Some a \<longrightarrow> heap ?W a = heap ?V a) \<and> sameFlags ?V ?W"
    by (simp add: sameFlags_def)
  from d sw pw have "sortPerm w = sortPerm ?U" by blast
  with sw have dw: "sortPerm (projr (sortCurrentDir ?W)) = sortPerm ?U" by simp
  from i len have i0: "invSortPerm ?U ! (sortPerm ?U ! 0) = 0"
    and i1: "invSortPerm ?U ! (sortPerm ?U ! 1) = 1"
    and i2: "invSortPerm ?U ! (sortPerm ?U ! 2) = 2" by simp_all
  from l len have l3: "length (sortPerm ?U) = 3" by simp
  from b len have b3: "bij_betw ((!) (sortPerm ?U)) {..<3} {..<3}" by simp
  from st names c s0 s1 perm iperm l3 b3 i0 i1 i2 dw show ?thesis by blast
qed

section \<open>The comparator\<close>

text \<open>
  Claim C4, as stated, does not hold for the key average size. When the averages of two
  entries tie, \<^verbatim>\<open>Less\<close> goes on to the comparison of their sizes, in the direction of
  the key (\<^verbatim>\<open>// if avgSize is equal, sort by size\<close>), not to the comparison of names:
  the directories \<open>a\<close> (size 10, one object) and \<open>b\<close> (size 20, two objects) have the
  same average 10, \<open>a\<close> is before \<open>b\<close> by name, and yet \<open>b\<close> is \<^verbatim>\<open>Less\<close> than \<open>a\<close> and
  \<open>a\<close> is not \<^verbatim>\<open>Less\<close> than \<open>b\<close>.
\<close>

theorem Less_average_tie_counterexample:
  "activeKey (ds_u (ex_byAverageSize [ex_dir ''a'' 10 1, ex_dir ''b'' 20 2])) = Some ByAverageSize \<and>
   sortByAverageSize (ds_u (ex_byAverageSize [ex_dir ''a'' 10 1, ex_dir ''b'' 20 2])) = 1 \<and>
   iAvgSize (ex_byAverageSize [ex_dir ''a'' 10 1, ex_dir ''b'' 20 2]) 0 = 10 \<and>
   iAvgSize (ex_byAverageSize [ex_dir ''a'' 10 1, ex_dir ''b'' 20 2]) 1 = 10 \<and>
   keyTie (ex_byAverageSize [ex_dir ''a'' 10 1, ex_dir ''b'' 20 2]) 0 1 \<and>
   iname (ex_byAverageSize [ex_dir ''a'' 10 1, ex_dir ''b'' 20 2]) 0 = ''a'' \<and>
   iname (ex_byAverageSize [ex_dir ''a'' 10 1, ex_dir ''b'' 20 2]) 1 = ''b'' \<and>
   iname (ex_byAverageSize [ex_dir ''a'' 10 1, ex_dir ''b'' 20 2]) 0
     < iname (ex_byAverageSize [ex_dir ''a'' 10 1, ex_dir ''b'' 20 2]) 1 \<and>
   \<not> Less (ex_byAverageSize [ex_dir ''a'' 10 1, ex_dir ''b'' 20 2]) 0 1 \<and>
   Less (ex_byAverageSize [ex_dir ''a'' 10 1, ex_dir ''b'' 20 2]) 1 0"
  by (simp add: ex_byAverageSize_def ex_sort_def ex_simps activeKey_def keyTie_def
        iname_def iattrs_def iAvgSize_def)

text \<open>
  Claim C4, amended. For the keys name, size and count, in either direction, and when
  no key is active: if the attribute of the key ties, \<^verbatim>\<open>Less\<close> is the ascending
  comparison of names, and of two entries with different names exactly one is
  \<^verbatim>\<open>Less\<close> than the other. For the key average size, in either direction: if the
  averages tie and the sizes differ, \<^verbatim>\<open>Less\<close> is the comparison of sizes in the
  direction of the key, and of two entries whose averages or sizes differ exactly one
  is \<^verbatim>\<open>Less\<close> than the other. For every key, \<^verbatim>\<open>Less\<close> is irreflexive and transitive.
\<close>

theorem Less_tie_break:
  "(activeKey (ds_u ds) \<noteq> Some ByAverageSize \<longrightarrow>
      (keyTie ds i j \<longrightarrow> Less ds i j = (iname ds i < iname ds j)) \<and>
      (iname ds i \<noteq> iname ds j \<longrightarrow> Less ds i j \<noteq> Less ds j i)) \<and>
   (activeKey (ds_u ds) = Some ByAverageSize \<longrightarrow>
      (keyTie ds i j \<and> Size (iattrs ds i) \<noteq> Size (iattrs ds j) \<longrightarrow>
         Less ds i j =
           (if sortByAverageSize (ds_u ds) <s 0 then Size (iattrs ds i) < Size (iattrs ds j)
            else Size (iattrs ds j) < Size (iattrs ds i))) \<and>
      (\<not> keyTie ds i j \<or> Size (iattrs ds i) \<noteq> Size (iattrs ds j) \<longrightarrow>
         Less ds i j \<noteq> Less ds j i)) \<and>
   \<not> Less ds i i \<and>
   (Less ds i j \<and> Less ds j k \<longrightarrow> Less ds i k)"
proof (intro conjI impI)
  assume "activeKey (ds_u ds) \<noteq> Some ByAverageSize" and "keyTie ds i j"
  then show "Less ds i j = (iname ds i < iname ds j)" by (rule Less_tie)
next
  assume "activeKey (ds_u ds) \<noteq> Some ByAverageSize" and "iname ds i \<noteq> iname ds j"
  then show "Less ds i j \<noteq> Less ds j i" by (rule Less_connex)
next
  assume k: "activeKey (ds_u ds) = Some ByAverageSize"
    and t: "keyTie ds i j \<and> Size (iattrs ds i) \<noteq> Size (iattrs ds j)"
  from t k have "iAvgSize ds i = iAvgSize ds j" by (simp add: keyTie_def)
  with k show "Less ds i j =
        (if sortByAverageSize (ds_u ds) <s 0 then Size (iattrs ds i) < Size (iattrs ds j)
         else Size (iattrs ds j) < Size (iattrs ds i))"
    by (simp add: Less_ByAverageSize)
next
  assume "activeKey (ds_u ds) = Some ByAverageSize"
    and "\<not> keyTie ds i j \<or> Size (iattrs ds i) \<noteq> Size (iattrs ds j)"
  then show "Less ds i j \<noteq> Less ds j i" by (rule Less_average_connex)
next
  show "\<not> Less ds i i" by (rule Less_irrefl)
next
  assume "Less ds i j \<and> Less ds j k"
  then have "Less ds i j" and "Less ds j k" by simp_all
  then show "Less ds i k" by (rule Less_transitive)
qed

theorem Less_tie_break_witness:
  "activeKey (ds_u (ex_bySize [ex_file ''a'' 10, ex_file ''b'' 10, ex_file ''c'' 5])) = Some BySize \<and>
   keyTie (ex_bySize [ex_file ''a'' 10, ex_file ''b'' 10, ex_file ''c'' 5]) 0 1 \<and>
   iname (ex_bySize [ex_file ''a'' 10, ex_file ''b'' 10, ex_file ''c'' 5]) 0 = ''a'' \<and>
   iname (ex_bySize [ex_file ''a'' 10, ex_file ''b'' 10, ex_file ''c'' 5]) 1 = ''b'' \<and>
   Less (ex_bySize [ex_file ''a'' 10, ex_file ''b'' 10, ex_file ''c'' 5]) 0 1 \<and>
   \<not> Less (ex_bySize [ex_file ''a'' 10, ex_file ''b'' 10, ex_file ''c'' 5]) 1 0 \<and>
   Less (ex_bySize [ex_file ''a'' 10, ex_file ''b'' 10, ex_file ''c'' 5]) 1 2 \<and>
   Less (ex_bySize [ex_file ''a'' 10, ex_file ''b'' 10, ex_file ''c'' 5]) 0 2 \<and>
   activeKey (ds_u (ex_byAverageSize [ex_dir ''a'' 10 1, ex_dir ''b'' 20 2, ex_dir ''c'' 5 1]))
     = Some ByAverageSize \<and>
   keyTie (ex_byAverageSize [ex_dir ''a'' 10 1, ex_dir ''b'' 20 2, ex_dir ''c'' 5 1]) 1 0 \<and>
   Size (iattrs (ex_byAverageSize [ex_dir ''a'' 10 1, ex_dir ''b'' 20 2, ex_dir ''c'' 5 1]) 1) = 20 \<and>
   Size (iattrs (ex_byAverageSize [ex_dir ''a'' 10 1, ex_dir ''b'' 20 2, ex_dir ''c'' 5 1]) 0) = 10 \<and>
   Less (ex_byAverageSize [ex_dir ''a'' 10 1, ex_dir ''b'' 20 2, ex_dir ''c'' 5 1]) 1 0 \<and>
   \<not> Less (ex_byAverageSize [ex_dir ''a'' 10 1, ex_dir ''b'' 20 2, ex_dir ''c'' 5 1]) 0 1 \<and>
   \<not> keyTie (ex_byAverageSize [ex_dir ''a'' 10 1, ex_dir ''b'' 20 2, ex_dir ''c'' 5 1]) 0 2 \<and>
   Less (ex_byAverageSize [ex_dir ''a'' 10 1, ex_dir ''b'' 20 2, ex_dir ''c'' 5 1]) 0 2 \<and>
   \<not> Less (ex_byAverageSize [ex_dir ''a'' 10 1, ex_dir ''b'' 20 2, ex_dir ''c'' 5 1]) 2 0 \<and>
   Less (ex_byAverageSize [ex_dir ''a'' 10 1, ex_dir ''b'' 20 2, ex_dir ''c'' 5 1]) 1 2"
proof -
  let ?s = "ex_bySize [ex_file ''a'' 10, ex_file ''b'' 10, ex_file ''c'' 5]"
  let ?a = "ex_byAverageSize [ex_dir ''a'' 10 1, ex_dir ''b'' 20 2, ex_dir ''c'' 5 1]"
  have s: "activeKey (ds_u ?s) = Some BySize" "keyTie ?s 0 1"
    "iname ?s 0 = ''a''" "iname ?s 1 = ''b''" "Less ?s 1 2"
    by (simp_all add: ex_bySize_def ex_sort_def ex_simps activeKey_def keyTie_def
          iname_def iattrs_def)
  have a: "activeKey (ds_u ?a) = Some ByAverageSize" "keyTie ?a 1 0" "\<not> keyTie ?a 0 2"
    "sortByAverageSize (ds_u ?a) = 1" "Size (iattrs ?a 1) = 20" "Size (iattrs ?a 0) = 10"
    "Less ?a 0 2"
    by (simp_all add: ex_byAverageSize_def ex_sort_def ex_simps activeKey_def keyTie_def
          iattrs_def iAvgSize_def)
  note S = Less_tie_break[of ?s 0 1 2]
  note A = Less_tie_break[of ?a 1 0 2]
  note B = Less_tie_break[of ?a 0 2 2]
  from S s(1,2) have "Less ?s 0 1 = (iname ?s 0 < iname ?s 1)" by simp
  with s(3,4) have 1: "Less ?s 0 1" by simp
  from S s(1,3,4) have "Less ?s 0 1 \<noteq> Less ?s 1 0" by simp
  with 1 have 2: "\<not> Less ?s 1 0" by simp
  from S 1 s(5) have 3: "Less ?s 0 2" by blast
  from A a(1,2,5,6) have "Less ?a 1 0 =
      (if sortByAverageSize (ds_u ?a) <s 0 then Size (iattrs ?a 1) < Size (iattrs ?a 0)
       else Size (iattrs ?a 0) < Size (iattrs ?a 1))" by simp
  with a(4,5,6) have 4: "Less ?a 1 0" by (simp add: word_sless_alt)
  from A a(1,5,6) have "Less ?a 1 0 \<noteq> Less ?a 0 1" by simp
  with 4 have 5: "\<not> Less ?a 0 1" by simp
  from B a(1,3) have "Less ?a 0 2 \<noteq> Less ?a 2 0" by simp
  with a(7) have 6: "\<not> Less ?a 2 0" by simp
  from A 4 a(7) have 7: "Less ?a 1 2" by blast
  from s(1,2,3,4) 1 2 s(5) 3 a(1,2,5,6) 4 5 a(3,7) 6 7 show ?thesis by blast
qed

text \<open>
  When the averages and the sizes of two entries both tie, the two cases of the key
  average size return the comparison of the sizes, which is false in both directions;
  the last statement of \<^verbatim>\<open>Less\<close>, under \<^verbatim>\<open>// if everything equal, sort by name\<close>,
  is not reached from them, while the cases of the keys size and count reach it. The
  files \<open>a\<close> and \<open>b\<close> of size 10 are such a pair.
\<close>

lemma Less_average_and_size_tie:
  "activeKey (ds_u (ex_byAverageSize [ex_file ''a'' 10, ex_file ''b'' 10])) = Some ByAverageSize \<and>
   keyTie (ex_byAverageSize [ex_file ''a'' 10, ex_file ''b'' 10]) 0 1 \<and>
   Size (iattrs (ex_byAverageSize [ex_file ''a'' 10, ex_file ''b'' 10]) 0)
     = Size (iattrs (ex_byAverageSize [ex_file ''a'' 10, ex_file ''b'' 10]) 1) \<and>
   iname (ex_byAverageSize [ex_file ''a'' 10, ex_file ''b'' 10]) 0
     \<noteq> iname (ex_byAverageSize [ex_file ''a'' 10, ex_file ''b'' 10]) 1 \<and>
   \<not> Less (ex_byAverageSize [ex_file ''a'' 10, ex_file ''b'' 10]) 0 1 \<and>
   \<not> Less (ex_byAverageSize [ex_file ''a'' 10, ex_file ''b'' 10]) 1 0"
  by (simp add: ex_byAverageSize_def ex_sort_def ex_simps activeKey_def keyTie_def
        iname_def iattrs_def iAvgSize_def)

section \<open>Visual select mode\<close>

text \<open>
  Claim C6, as stated, does not hold. \<^verbatim>\<open>move\<close> calls \<^verbatim>\<open>toggleSelectForCursor\<close> before
  it writes the new position back, and \<^verbatim>\<open>toggleSelectForCursor\<close> reads the position from
  \<^verbatim>\<open>dirPosMap\<close>: the entry toggled is the one the cursor leaves. With the files \<open>a\<close>
  (size 10) and \<open>b\<close> (size 100), shown in the order \<open>b\<close>, \<open>a\<close>, the keys \<^verbatim>\<open>V\<close> and
  arrow down move the cursor to rank 1, where \<open>a\<close> is, and select \<open>b\<close>.
\<close>

theorem move_toggles_landing_entry_counterexample:
  "observed cursor (steps ex_env (ex_keys [Key_V, KeyArrowDown])
      (ex_start [ex_file ''a'' 10, ex_file ''b'' 100])) = Inr \<lparr>entry = 1, offset = 0\<rparr> \<and>
   observed cursorName (steps ex_env (ex_keys [Key_V, KeyArrowDown])
      (ex_start [ex_file ''a'' 10, ex_file ''b'' 100])) = Inr (Inr ''a'') \<and>
   observed selectedEntries (steps ex_env (ex_keys [Key_V, KeyArrowDown])
      (ex_start [ex_file ''a'' 10, ex_file ''b'' 100])) = Inr [''b'' \<mapsto> \<lparr>entry = 0, offset = 0\<rparr>]"
  by (simp add: ex_simps)

text \<open>
  Claim C6, amended. When a directory is displayed, visual select mode is active and
  the stored cursor is on an entry, every \<^verbatim>\<open>move(delta)\<close> returns; it toggles the
  entry under the cursor before the move into or out of the selection, an entry that
  enters the selection being stored with the position before the move; it leaves the
  selection state of every other key as it was; and it stores the position \<open>moved\<close>,
  whose rank is the rank before the move plus \<open>delta\<close>, clamped to the entries. The
  entries and the permutation are unchanged, so the entry the cursor lands on is
  the one at that rank: its selection state changes in this call only when it has the
  key of the entry the cursor was on.
\<close>

theorem move_toggles_stored_cursor_entry:
  "ui_d u \<noteq> None \<and> visualSelectMode u \<and> cursorEntry u = Inr dirEntry \<longrightarrow>
     (\<exists>u'. move dl u = Inr u' \<and>
        selectedEntries u' = toggled (selectedEntries u) (String dirEntry) (cursor u) \<and>
        (\<forall>k. k \<noteq> String dirEntry \<longrightarrow> selectedEntries u' k = selectedEntries u k) \<and>
        cursor u' = moved dl u \<and>
        entry (cursor u') = max 0 (min (int (length (entries u)) - 1) (entry (cursor u) + dl)) \<and>
        entries u' = entries u \<and> sortPerm u' = sortPerm u)"
proof
  assume h: "ui_d u \<noteq> None \<and> visualSelectMode u \<and> cursorEntry u = Inr dirEntry"
  then obtain a where a: "ui_d u = Some a" by auto
  let ?w = "u\<lparr>selectedEntries := toggled (selectedEntries u) (String dirEntry) (cursor u)\<rparr>"
  let ?u' = "?w\<lparr>dirPosMap := (dirPosMap ?w)(path ?w := moved dl u)\<rparr>"
  from h have t: "toggleSelectForCursor u = Inr ?w"
    by (simp add: toggleSelectForCursor_cursorEntry)
  from h have v: "visualSelectMode u" by simp
  from h have "entries u \<noteq> []" using cursorEntry_entries[of u dirEntry] by simp
  then have e: "entry (moved dl u)
      = max 0 (min (int (length (entries u)) - 1) (entry (cursor u) + dl))"
    by (rule moved_entry)
  have m: "move dl u = Inr ?u'" using a v t by (rule move_after_toggle)
  have c: "cursor ?u' = moved dl u" by (simp add: cursor_def)
  have "selectedEntries ?u' = toggled (selectedEntries u) (String dirEntry) (cursor u)"
    "\<forall>k. k \<noteq> String dirEntry \<longrightarrow> selectedEntries ?u' k = selectedEntries u k"
    "entries ?u' = entries u" "sortPerm ?u' = sortPerm u"
    by (simp_all add: toggled_def)
  moreover from c e
  have "entry (cursor ?u') = max 0 (min (int (length (entries u)) - 1) (entry (cursor u) + dl))"
    by simp
  ultimately show "\<exists>u'. move dl u = Inr u' \<and>
        selectedEntries u' = toggled (selectedEntries u) (String dirEntry) (cursor u) \<and>
        (\<forall>k. k \<noteq> String dirEntry \<longrightarrow> selectedEntries u' k = selectedEntries u k) \<and>
        cursor u' = moved dl u \<and>
        entry (cursor u') = max 0 (min (int (length (entries u)) - 1) (entry (cursor u) + dl)) \<and>
        entries u' = entries u \<and> sortPerm u' = sortPerm u"
    using m c by blast
qed

theorem move_toggles_stored_cursor_entry_witness:
  "steps ex_env (ex_keys [Key_V]) (ex_start [ex_file ''a'' 10, ex_file ''b'' 100])
     = Inr (ex_after [Key_V] [ex_file ''a'' 10, ex_file ''b'' 100]) \<and>
   ui_d (ex_after [Key_V] [ex_file ''a'' 10, ex_file ''b'' 100]) \<noteq> None \<and>
   visualSelectMode (ex_after [Key_V] [ex_file ''a'' 10, ex_file ''b'' 100]) \<and>
   cursor (ex_after [Key_V] [ex_file ''a'' 10, ex_file ''b'' 100]) = \<lparr>entry = 0, offset = 0\<rparr> \<and>
   cursorEntry (ex_after [Key_V] [ex_file ''a'' 10, ex_file ''b'' 100])
     = Inr (childEntry (ex_file ''b'' 100)) \<and>
   map_sum id selectedEntries (move 1 (ex_after [Key_V] [ex_file ''a'' 10, ex_file ''b'' 100]))
     = Inr [''b'' \<mapsto> \<lparr>entry = 0, offset = 0\<rparr>] \<and>
   map_sum id cursor (move 1 (ex_after [Key_V] [ex_file ''a'' 10, ex_file ''b'' 100]))
     = Inr \<lparr>entry = 1, offset = 0\<rparr> \<and>
   map_sum id cursorName (move 1 (ex_after [Key_V] [ex_file ''a'' 10, ex_file ''b'' 100]))
     = Inr (Inr ''a'') \<and>
   steps ex_env (ex_keys [KeyArrowDown, Key_V]) (ex_start [ex_file ''a'' 10, ex_file ''b'' 100])
     = Inr (ex_after [KeyArrowDown, Key_V] [ex_file ''a'' 10, ex_file ''b'' 100]) \<and>
   cursor (ex_after [KeyArrowDown, Key_V] [ex_file ''a'' 10, ex_file ''b'' 100])
     = \<lparr>entry = 1, offset = 0\<rparr> \<and>
   cursorEntry (ex_after [KeyArrowDown, Key_V] [ex_file ''a'' 10, ex_file ''b'' 100])
     = Inr (childEntry (ex_file ''a'' 10)) \<and>
   map_sum id selectedEntries
       (move 1 (ex_after [KeyArrowDown, Key_V] [ex_file ''a'' 10, ex_file ''b'' 100]))
     = Inr [''a'' \<mapsto> \<lparr>entry = 1, offset = 0\<rparr>] \<and>
   map_sum id cursor
       (move 1 (ex_after [KeyArrowDown, Key_V] [ex_file ''a'' 10, ex_file ''b'' 100]))
     = Inr \<lparr>entry = 1, offset = 0\<rparr>"
proof -
  let ?cs = "[ex_file ''a'' 10, ex_file ''b'' 100]"
  let ?v = "ex_after [Key_V] ?cs"
  let ?d = "ex_after [KeyArrowDown, Key_V] ?cs"
  have s: "steps ex_env (ex_keys [Key_V]) (ex_start ?cs) = Inr ?v"
    by (simp add: ex_after_def ex_simps)
  have h: "ui_d ?v \<noteq> None \<and> visualSelectMode ?v \<and> cursorEntry ?v = Inr (childEntry (ex_file ''b'' 100))"
    and c: "cursor ?v = \<lparr>entry = 0, offset = 0\<rparr>"
    and mv: "moved 1 ?v = \<lparr>entry = 1, offset = 0\<rparr>"
    and sel: "selectedEntries ?v = Map.empty"
    and ents: "map Remote (entries ?v) = [''a'', ''b'']" "sortPerm ?v = [1, 0]"
    by (simp_all add: ex_after_def ex_simps moved_def)
  from move_toggles_stored_cursor_entry[of ?v "childEntry (ex_file ''b'' 100)" 1] h
  obtain u' where m: "move 1 ?v = Inr u'"
    and s': "selectedEntries u' = toggled (selectedEntries ?v) (String (childEntry (ex_file ''b'' 100))) (cursor ?v)"
    and c': "cursor u' = moved 1 ?v" and e': "entries u' = entries ?v"
    and p': "sortPerm u' = sortPerm ?v"
    by blast
  have kb: "String (childEntry (ex_file ''b'' 100)) = ''b''"
    and ka: "String (childEntry (ex_file ''a'' 10)) = ''a''"
    by (simp_all add: ex_file_def)
  have 1: "selectedEntries u' = [''b'' \<mapsto> \<lparr>entry = 0, offset = 0\<rparr>]"
    by (simp add: s' sel c toggled_def kb)
  have 2: "cursor u' = \<lparr>entry = 1, offset = 0\<rparr>" by (simp add: c' mv)
  have "cursorEntry u' = index (entries ?v) 0"
    by (simp add: cursorEntry_def 2 p' e' ents index_def)
  then have 3: "cursorName u' = Inr ''a''"
    using ents(1) by (cases "entries ?v") (simp_all add: cursorName_def index_def)
  have sd: "steps ex_env (ex_keys [KeyArrowDown, Key_V]) (ex_start ?cs) = Inr ?d"
    by (simp add: ex_after_def ex_simps)
  have hy: "ui_d ?d \<noteq> None \<and> visualSelectMode ?d \<and> cursorEntry ?d = Inr (childEntry (ex_file ''a'' 10))"
    and cd: "cursor ?d = \<lparr>entry = 1, offset = 0\<rparr>"
    and mvd: "moved 1 ?d = \<lparr>entry = 1, offset = 0\<rparr>"
    and seld: "selectedEntries ?d = Map.empty"
    by (simp_all add: ex_after_def ex_simps moved_def)
  from move_toggles_stored_cursor_entry[of ?d "childEntry (ex_file ''a'' 10)" 1] hy
  obtain w' where md: "move 1 ?d = Inr w'"
    and sd': "selectedEntries w' = toggled (selectedEntries ?d) (String (childEntry (ex_file ''a'' 10))) (cursor ?d)"
    and cd': "cursor w' = moved 1 ?d"
    by blast
  have 4: "selectedEntries w' = [''a'' \<mapsto> \<lparr>entry = 1, offset = 0\<rparr>]"
    by (simp add: sd' seld cd toggled_def ka)
  have 5: "cursor w' = \<lparr>entry = 1, offset = 0\<rparr>" by (simp add: cd' mvd)
  from h have h1: "ui_d ?v \<noteq> None" and h2: "visualSelectMode ?v"
    and h3: "cursorEntry ?v = Inr (childEntry (ex_file ''b'' 100))" by simp_all
  from hy have h4: "cursorEntry ?d = Inr (childEntry (ex_file ''a'' 10))" by simp
  have r1: "map_sum id selectedEntries (move 1 ?v) = Inr [''b'' \<mapsto> \<lparr>entry = 0, offset = 0\<rparr>]"
    and r2: "map_sum id cursor (move 1 ?v) = Inr \<lparr>entry = 1, offset = 0\<rparr>"
    and r3: "map_sum id cursorName (move 1 ?v) = Inr (Inr ''a'')"
    using m 1 2 3 by simp_all
  have r4: "map_sum id selectedEntries (move 1 ?d) = Inr [''a'' \<mapsto> \<lparr>entry = 1, offset = 0\<rparr>]"
    and r5: "map_sum id cursor (move 1 ?d) = Inr \<lparr>entry = 1, offset = 0\<rparr>"
    using md 4 5 by simp_all
  from s h1 h2 c h3 r1 r2 r3 sd cd h4 r4 r5 show ?thesis by blast
qed
section \<open>The viewport\<close>

text \<open>The arithmetic of one \<^verbatim>\<open>move\<close>, on the numbers alone.\<close>

lemma viewport_step:
  fixes e ofs n h dl :: int
  assumes "0 < n" "0 < h" "0 \<le> e" "e < n" "0 \<le> ofs" "ofs \<le> e" "e - ofs < h"
  defines "absD \<equiv> (if dl < 0 then - dl else dl)"
  defines "e1 \<equiv> e + dl"
  defines "e2 \<equiv> (if e1 < 0 then 0 else if e1 \<ge> n then n - 1 else e1)"
  defines "p \<equiv> e2 - ofs"
  defines "o1 \<equiv> (if p < 0 then ofs - absD else if p \<ge> h then ofs + absD else ofs)"
  defines "o2 \<equiv> (if n = 0 \<or> o1 < 0 then 0 else if o1 \<ge> n then n - 1 else o1)"
  shows "0 \<le> e2 \<and> e2 < n \<and> 0 \<le> o2 \<and> o2 \<le> e2 \<and> e2 - o2 < h"
proof -
  have e2: "0 \<le> e2" "e2 < n" using assms(1) by (auto simp: e2_def)
  have e2b: "e2 \<le> max 0 (e + dl)" "min (n - 1) (e + dl) \<le> e2"
    using assms(1) by (auto simp: e2_def e1_def)
  consider (up) "p < 0" | (down) "h \<le> p" | (stay) "0 \<le> p" "p < h" by linarith
  then show ?thesis
  proof cases
    case up
    then have o1: "o1 = ofs - absD" by (simp add: o1_def)
    from up have "dl < 0" using assms e2b by (auto simp: p_def e2_def e1_def split: if_splits)
    then have a: "absD = - dl" by (simp add: absD_def)
    show ?thesis using e2 up o1 a assms(1-7)
      by (auto simp: o2_def p_def e2_def e1_def split: if_splits)
  next
    case down
    then have o1: "o1 = ofs + absD" using assms(2) by (simp add: o1_def)
    from down have "0 < dl" using assms by (auto simp: p_def e2_def e1_def split: if_splits)
    then have a: "absD = dl" by (simp add: absD_def)
    show ?thesis using e2 down o1 a assms(1-7)
      by (auto simp: o2_def p_def e2_def e1_def split: if_splits)
  next
    case stay
    then have o1: "o1 = ofs" by (simp add: o1_def)
    show ?thesis using e2 stay o1 assms(1-7)
      by (auto simp: o2_def p_def split: if_splits)
  qed
qed

text \<open>
  In a directory with entries, shown on at least one row, \<^verbatim>\<open>move\<close> keeps the viewport
  invariant, for every \<open>delta\<close>.
\<close>

lemma move_keeps_viewport:
  assumes m: "move dl u = Inr u'" and n: "entries u \<noteq> []" and h: "0 < dirListHeight u"
    and v: "viewportOk u"
  shows "viewportOk u'"
proof (cases "ui_d u = None")
  case True
  with m v show ?thesis by (simp add: move_def)
next
  case False
  obtain w where w: "(if visualSelectMode u then toggleSelectForCursor u else Inr u) = Inr w"
    using m False by (auto simp: move_def Let_def split: sum.splits)
  have k: "dirPosMap w = dirPosMap u \<and> path w = path u \<and> entries w = entries u \<and>
           dirListHeight w = dirListHeight u"
    using w by (auto simp: toggleSelectForCursor_def Let_def split: if_splits sum.splits)
  from n have pos: "0 < int (length (entries u))" by simp
  have c: "cursor u' =
     (let absD = (if dl < 0 then - dl else dl);
          n = int (length (entries u));
          dp = cursor u;
          e1 = entry dp + dl;
          e2 = (if e1 < 0 then 0 else if e1 \<ge> n then n - 1 else e1);
          p = e2 - offset dp;
          o1 = (if p < 0 then offset dp - absD
                else if p \<ge> dirListHeight u then offset dp + absD
                else offset dp);
          o2 = (if n = 0 \<or> o1 < 0 then 0 else if o1 \<ge> n then n - 1 else o1)
      in \<lparr>entry = e2, offset = o2\<rparr>)"
    and e: "entries u' = entries u" and d: "dirListHeight u' = dirListHeight u"
    using m False w k
    by (simp_all add: move_def cursor_def Let_def split del: if_split cong: if_cong)
       (auto split del: if_split cong: if_cong)
  from v pos have v': "0 \<le> entry (cursor u)" "entry (cursor u) < int (length (entries u))"
    "0 \<le> offset (cursor u)" "offset (cursor u) \<le> entry (cursor u)"
    "entry (cursor u) - offset (cursor u) < dirListHeight u"
    by (simp_all add: viewportOk_def Let_def)
  from viewport_step[OF pos h v', of dl] pos
  show ?thesis by (simp add: viewportOk_def e d c Let_def)
qed

text \<open>
  Claim C5 is not met by the code in a directory without entries. There \<^verbatim>\<open>move\<close>
  clamps the entry to \<^verbatim>\<open>entries - 1\<close>, which is \<open>-1\<close>: after the root has arrived with
  no children, one arrow down stores the cursor \<open>-1\<close>, and the viewport invariant
  fails.
\<close>

theorem move_empty_directory_cursor:
  "observed cursor (steps ex_env (ex_keys [KeyArrowDown]) (ex_start []))
     = Inr \<lparr>entry = - 1, offset = 0\<rparr> \<and>
   observed entries (steps ex_env (ex_keys [KeyArrowDown]) (ex_start [])) = Inr [] \<and>
   observed viewportOk (steps ex_env (ex_keys [KeyArrowDown]) (ex_start [])) = Inr False"
  by (simp add: ex_simps viewportOk_def)

section \<open>Selecting without entries\<close>

text \<open>
  Claim C10 is not met by the code. \<^verbatim>\<open>toggleSelectForCursor\<close> indexes \<^verbatim>\<open>u.sortPerm\<close>
  without a check, where \<^verbatim>\<open>enter\<close> and \<^verbatim>\<open>delete\<close> return early on an empty listing.
  The key \<^verbatim>\<open>v\<close> panics before the root has arrived; it panics in a directory without
  entries; and in such a directory, in visual select mode, so does a cursor key.
\<close>

theorem toggleSelect_panics_without_entries:
  "steps ex_env [(23, [], EventKey Key_v)] (ex_start []) = Inl (Panic IndexOutOfRange) \<and>
   steps ex_env (ex_keys [Key_v]) (ex_start []) = Inl (Panic IndexOutOfRange) \<and>
   steps ex_env (ex_keys [Key_V, KeyArrowDown]) (ex_start []) = Inl (Panic IndexOutOfRange)"
  by (simp add: ex_simps)

section \<open>Deleting the selection\<close>

text \<open>
  Claim C3 is not met by the code. The selection stores, for each name, the rank of
  the cursor at the time of selection, and the handler of \<^verbatim>\<open>deleteSelected\<close> looks
  this rank up in the permutation of the time of the confirmation; the name, the key
  of the map, is not used to find the entry. With the files \<open>a\<close> (size 10) and \<open>b\<close>
  (size 100): \<^verbatim>\<open>v\<close> selects \<open>b\<close> at rank 0, \<^verbatim>\<open>s\<close> reverses the order, \<^verbatim>\<open>D\<close>, arrow
  right and Enter confirm, and the backend is asked to delete \<open>a\<close>.
\<close>

theorem deleteSelected_deletes_unselected_entry:
  "observed selectedEntries
     (steps ex_env (ex_keys [Key_v, Key_s, Key_D, KeyArrowRight])
        (ex_start [ex_file ''a'' 10, ex_file ''b'' 100]))
     = Inr [''b'' \<mapsto> \<lparr>entry = 0, offset = 0\<rparr>] \<and>
   observed (deleted \<circ> ui_f)
     (steps ex_env
        (ex_keys [Key_v, Key_s, Key_D, KeyArrowRight] @
         [(23, [(''b'', \<lparr>entry = 0, offset = 0\<rparr>)], EventKey KeyEnter)])
        (ex_start [ex_file ''a'' 10, ex_file ''b'' 100]))
     = Inr [''a'']"
  by (simp add: ex_simps)

text \<open>
  Claim C1 is not met by the code, through the same lookup. With the files \<open>a\<close>
  (size 10), \<open>b\<close> (size 100) and \<open>c\<close> (size 50), the same keys select \<open>b\<close> only, all
  deletions succeed, and the directory is left with \<open>b\<close> and \<open>c\<close>: the selected entry
  stays and the entry \<open>a\<close>, never selected, is removed.
\<close>

theorem deleteSelected_leaves_selected_entry:
  "observed (dom \<circ> selectedEntries)
     (steps ex_env (ex_keys [Key_v, Key_s, Key_D, KeyArrowRight])
        (ex_start [ex_file ''a'' 10, ex_file ''b'' 100, ex_file ''c'' 50]))
     = Inr {''b''} \<and>
   observed (map Remote \<circ> entries)
     (steps ex_env
        (ex_keys [Key_v, Key_s, Key_D, KeyArrowRight] @
         [(23, [(''b'', \<lparr>entry = 0, offset = 0\<rparr>)], EventKey KeyEnter)])
        (ex_start [ex_file ''a'' 10, ex_file ''b'' 100, ex_file ''c'' 50]))
     = Inr [''b'', ''c'']"
  by (simp add: ex_simps)

section \<open>Dismissing a popup with a menu\<close>

text \<open>
  Claim C2 is not met by the code. The quit key sets \<^verbatim>\<open>showBox\<close> to false and nothing
  else, where \<^verbatim>\<open>handleBoxOption\<close> resets the button, the menu and the handler. In a
  directory with the one file \<open>a\<close>: after \<^verbatim>\<open>d\<close>, arrow right and Esc the popup is
  gone, the menu is still there and its button is still on confirm; Enter then deletes
  \<open>a\<close>; and a new \<^verbatim>\<open>d\<close> shows a popup whose button is on confirm.
\<close>

theorem dismissed_popup_stays_armed:
  "observed showBox
     (steps ex_env (ex_keys [Key_d, KeyArrowRight, KeyEsc]) (ex_start [ex_file ''a'' 10]))
     = Inr False \<and>
   observed boxMenu
     (steps ex_env (ex_keys [Key_d, KeyArrowRight, KeyEsc]) (ex_start [ex_file ''a'' 10]))
     = Inr [''cancel'', ''confirm''] \<and>
   observed boxMenuButton
     (steps ex_env (ex_keys [Key_d, KeyArrowRight, KeyEsc]) (ex_start [ex_file ''a'' 10]))
     = Inr 1 \<and>
   observed (deleted \<circ> ui_f)
     (steps ex_env (ex_keys [Key_d, KeyArrowRight, KeyEsc, KeyEnter]) (ex_start [ex_file ''a'' 10]))
     = Inr [''a''] \<and>
   observed showBox
     (steps ex_env (ex_keys [Key_d, KeyArrowRight, KeyEsc, Key_d]) (ex_start [ex_file ''a'' 10]))
     = Inr True \<and>
   observed boxMenuButton
     (steps ex_env (ex_keys [Key_d, KeyArrowRight, KeyEsc, Key_d]) (ex_start [ex_file ''a'' 10]))
     = Inr 1"
  by (simp add: ex_simps)

section \<open>Deleting the entry under the cursor\<close>

text \<open>
  Claim C8 is not met by the code when the cursor moves while the popup is shown.
  The handler of \<^verbatim>\<open>deleteSingle\<close> compares the cursor that was read when the popup was
  staged, where the handler of \<^verbatim>\<open>deleteSelected\<close> reads the cursor again. With three
  files: \<^verbatim>\<open>d\<close> at rank 0, two arrows down, arrow right and Enter delete the first file
  and leave the cursor at 2 in a directory of two entries; the key \<^verbatim>\<open>v\<close> then panics.
\<close>

theorem deleteSingle_leaves_cursor_out_of_range:
  "observed cursor
     (steps ex_env (ex_keys [Key_d, KeyArrowDown, KeyArrowDown, KeyArrowRight, KeyEnter])
        (ex_start [ex_file ''a'' 30, ex_file ''b'' 20, ex_file ''c'' 10]))
     = Inr \<lparr>entry = 2, offset = 0\<rparr> \<and>
   observed (map Remote \<circ> entries)
     (steps ex_env (ex_keys [Key_d, KeyArrowDown, KeyArrowDown, KeyArrowRight, KeyEnter])
        (ex_start [ex_file ''a'' 30, ex_file ''b'' 20, ex_file ''c'' 10]))
     = Inr [''b'', ''c''] \<and>
   steps ex_env (ex_keys [Key_d, KeyArrowDown, KeyArrowDown, KeyArrowRight, KeyEnter, KeyEsc, Key_v])
     (ex_start [ex_file ''a'' 30, ex_file ''b'' 20, ex_file ''c'' 10])
     = Inl (Panic IndexOutOfRange)"
  by (simp add: ex_simps)

end
